theory Spec2Isabelle
  imports Complex_Main "HOL-Library.Log_Nat" "HOL-Library.Multiset"
begin

section \<open>Data model (types.ts)\<close>

text \<open>
  A JavaScript value of type \<open>T | null | undefined\<close>: an optional property that is
  absent reads as \<open>Undefined\<close>, as does an array read out of range.
\<close>

datatype 'a nullable = Undefined | Null | Val 'a

text \<open>
  Truthiness of a \<open>string | null | undefined\<close>, as tested by \<open>if (x)\<close> and \<open>!x\<close>:
  \<open>undefined\<close>, \<open>null\<close> and the empty string are falsy.
\<close>

fun truthy :: "string nullable \<Rightarrow> bool" where
  "truthy Undefined = False"
| "truthy Null = False"
| "truthy (Val s) = (s \<noteq> [])"

datatype TournamentType = SINGLE_ELIMINATION

datatype MatchFormat = BEST_OF_1 | BEST_OF_3 | BEST_OF_5 | BEST_OF_7

datatype TournamentStatus = DRAFT | REGISTRATION_OPEN | IN_PROGRESS | COMPLETED | ARCHIVED

record Player =
  p_id :: string
  gamertag :: string
  discordOrIGN :: "string option"
  icon :: string
  seed :: int
  selfReportingPasswordHash :: string

record Match =
  m_id :: string
  roundIndex :: int
  matchIndex :: int
  m_players :: "string nullable list"
  scores :: "int list"
  winnerId :: "string nullable"
  isBye :: "bool option"
  nextMatchId :: "string nullable"
  justCompleted :: "bool option"
  isGrandFinals :: "bool option"

record Bracket =
  winners :: "Match list list"

record Tournament =
  t_id :: string
  name :: string
  gameTitle :: string
  platforms :: "string list"
  tournamentType :: TournamentType
  matchFormat :: MatchFormat
  startDate :: string
  endDate :: "string option"
  description :: string
  discordLink :: "string option"
  adminPasswordHash :: string
  logoUrl :: "string option"
  bannerUrl :: "string option"
  backgroundUrl :: string
  rules :: "string option"
  prizePool :: "string option"
  status :: TournamentStatus
  t_players :: "Player list"
  bracket :: "Bracket option"
  announcements :: string
  isCitiesTournament :: "bool option"

text \<open>
  \<open>Partial<Tournament>\<close>: every property may be absent (\<open>None\<close>). The property
  \<open>bracket\<close> is itself optional in \<open>Tournament\<close>, so it can be present with the value
  \<open>undefined\<close> (\<open>Some None\<close>).
\<close>

record TournamentUpdates =
  u_id :: "string option"
  u_name :: "string option"
  u_gameTitle :: "string option"
  u_platforms :: "string list option"
  u_tournamentType :: "TournamentType option"
  u_matchFormat :: "MatchFormat option"
  u_startDate :: "string option"
  u_endDate :: "string option option"
  u_description :: "string option"
  u_discordLink :: "string option option"
  u_adminPasswordHash :: "string option"
  u_logoUrl :: "string option option"
  u_bannerUrl :: "string option option"
  u_backgroundUrl :: "string option"
  u_rules :: "string option option"
  u_prizePool :: "string option option"
  u_status :: "TournamentStatus option"
  u_players :: "Player list option"
  u_bracket :: "Bracket option option"
  u_announcements :: "string option"
  u_isCitiesTournament :: "bool option option"

section \<open>Bracket generation (generateBracket)\<close>

subsection \<open>getStandardSeedingOrder\<close>

text \<open>
  One pass of the inner \<open>for (const seed of lastRound)\<close> loop: every seed is followed
  by its opponent \<open>sum - seed\<close>, where \<open>sum = lastRound.length * 2 + 1\<close>.
\<close>

definition nextRound :: "int list \<Rightarrow> int list" where
  "nextRound lastRound =
     (let sum = int (length lastRound) * 2 + 1
      in concat (map (\<lambda>seed. [seed, sum - seed]) lastRound))"

text \<open>
  The \<open>while (rounds[rounds.length - 1].length < size)\<close> loop on the array \<open>rounds\<close>.
  Not returning is the value \<open>None\<close>.
\<close>

partial_function (option) seedingLoop :: "nat \<Rightarrow> int list list \<Rightarrow> int list list option" where
  "seedingLoop sz rounds =
     (if length (last rounds) < sz
      then seedingLoop sz (rounds @ [nextRound (last rounds)])
      else Some rounds)"

declare seedingLoop.simps [code]

text \<open>
  The function body around the loop. The loop starts from \<open>[[1, 2]]\<close>, from where
  it returns for every \<open>size\<close> (lemma \<open>seedingLoop_terminates\<close> below), so
  \<^const>\<open>the\<close> always meets a result.
\<close>

definition getStandardSeedingOrder :: "nat \<Rightarrow> int list" where
  "getStandardSeedingOrder sz =
     (if sz < 2 then (if sz = 1 then [1] else [])
      else last (the (seedingLoop sz [[1, 2]])))"


subsection \<open>Match identifiers\<close>

text \<open>
  The decimal rendering of a non-negative integer in a template literal, as in
  \<open>`1W${i + 1}`\<close>.
\<close>

definition digit_char :: "nat \<Rightarrow> char" where
  "digit_char d = ''0123456789'' ! d"

function string_of_nat :: "nat \<Rightarrow> string" where
  "string_of_nat n =
     (if n < 10 then [digit_char n]
      else string_of_nat (n div 10) @ [digit_char (n mod 10)])"
  by pat_completeness auto
termination
  by (relation "measure (\<lambda>n. n)") auto

declare string_of_nat.simps [simp del]

subsection \<open>The first round\<close>

text \<open>
  An array read \<open>xs[i]\<close>: out of range it yields \<open>undefined\<close>.
\<close>

definition js_nth :: "'a nullable list \<Rightarrow> int \<Rightarrow> 'a nullable" where
  "js_nth xs i = (if 0 \<le> i \<and> i < int (length xs) then xs ! nat i else Undefined)"

text \<open>
  The body of the loop \<open>for (let i = 0; i < bracketSize / 2; i++)\<close>: the match built
  from the slots \<open>i * 2\<close> and \<open>i * 2 + 1\<close> of \<open>finalPlayerOrder\<close>.
\<close>

definition firstRoundMatch :: "string nullable list \<Rightarrow> nat \<Rightarrow> Match" where
  "firstRoundMatch finalPlayerOrder i =
     (let p1 = js_nth finalPlayerOrder (int i * 2);
          p2 = js_nth finalPlayerOrder (int i * 2 + 1);
          bye = ((p1 \<noteq> Null \<and> p2 = Null) \<or> (p1 = Null \<and> p2 \<noteq> Null));
          match = \<lparr> m_id = ''1W'' @ string_of_nat (i + 1),
                    roundIndex = 0,
                    matchIndex = int i,
                    m_players = [p1, p2],
                    scores = [0, 0],
                    winnerId = Undefined,
                    isBye = Some bye,
                    nextMatchId = Undefined,
                    justCompleted = None,
                    isGrandFinals = None \<rparr>
      in if bye then match\<lparr>winnerId := (if p1 \<noteq> Null then p1 else p2)\<rparr> else match)"

subsection \<open>The later rounds\<close>

text \<open>
  The body of the loop \<open>for (let i = 0; i < previousRound.length; i += 2)\<close>:
  the match \<open>i / 2\<close> of round \<open>roundIndex\<close>, with the winners of the two feeding
  matches put in place already when those matches are byes. A missing \<open>isBye\<close> is
  falsy, and \<open>previousRound[i + 1]\<close> is tested for existence first.
\<close>

definition laterRoundMatch :: "nat \<Rightarrow> Match list \<Rightarrow> nat \<Rightarrow> Match" where
  "laterRoundMatch rIndex previousRound i =
     (let mIndex = i div 2;
          match = \<lparr> m_id = string_of_nat (rIndex + 1) @ ''W'' @ string_of_nat (mIndex + 1),
                    roundIndex = int rIndex,
                    matchIndex = int mIndex,
                    m_players = [Null, Null],
                    scores = [0, 0],
                    winnerId = Undefined,
                    isBye = None,
                    nextMatchId = Undefined,
                    justCompleted = None,
                    isGrandFinals = None \<rparr>;
          match = (if isBye (previousRound ! i) = Some True
                   then match\<lparr>m_players := (m_players match)[0 := winnerId (previousRound ! i)]\<rparr>
                   else match);
          match = (if i + 1 < length previousRound \<and> isBye (previousRound ! (i + 1)) = Some True
                   then match\<lparr>m_players := (m_players match)[1 := winnerId (previousRound ! (i + 1))]\<rparr>
                   else match)
      in match)"

text \<open>
  The loop variable \<open>i\<close> takes the even values below \<open>previousRound.length\<close>.
\<close>

definition newRound :: "nat \<Rightarrow> Match list \<Rightarrow> Match list" where
  "newRound rIndex previousRound =
     map (\<lambda>j. laterRoundMatch rIndex previousRound (2 * j))
         [0..<(length previousRound + 1) div 2]"

text \<open>
  The loop \<open>while (winnersBracket[winnersBracket.length - 1].length > 1)\<close>, which
  appends one round per pass and counts \<open>roundIndex\<close> up.
\<close>

function buildRounds :: "nat \<Rightarrow> Match list list \<Rightarrow> Match list list" where
  "buildRounds rIndex winnersBracket =
     (if length (last winnersBracket) > 1
      then buildRounds (rIndex + 1) (winnersBracket @ [newRound rIndex (last winnersBracket)])
      else winnersBracket)"
  by pat_completeness auto
termination
  by (relation "measure (\<lambda>(rIndex, winnersBracket). length (last winnersBracket))")
     (auto simp: newRound_def)

declare buildRounds.simps [simp del]

text \<open>
  The nested loops over \<open>r < winnersBracket.length - 1\<close> and
  \<open>m < winnersBracket[r].length\<close> that write \<open>nextMatchId\<close>.
\<close>

definition setNextMatchIds :: "Match list list \<Rightarrow> Match list list" where
  "setNextMatchIds winnersBracket =
     map (\<lambda>r. if r + 1 < length winnersBracket
              then map (\<lambda>m. (winnersBracket ! r ! m)
                              \<lparr>nextMatchId :=
                                 Val (string_of_nat (r + 2) @ ''W'' @ string_of_nat (m div 2 + 1))\<rparr>)
                       [0..<length (winnersBracket ! r)]
              else winnersBracket ! r)
         [0..<length winnersBracket]"

text \<open>
  \<open>finalMatch\<close> is the first match of the last round, when there is one.
  (\<open>winnersBracket\<close> holds the first round at least.)
\<close>

definition markGrandFinals :: "Match list list \<Rightarrow> Match list list" where
  "markGrandFinals winnersBracket =
     (case last winnersBracket of
        [] \<Rightarrow> winnersBracket
      | finalMatch # rest \<Rightarrow>
          butlast winnersBracket @ [finalMatch\<lparr>isGrandFinals := Some True\<rparr> # rest])"

subsection \<open>generateBracket\<close>

text \<open>
  \<open>Math.ceil(Math.log2(numPlayers))\<close> is \<^const>\<open>ceillog2\<close> (exact arithmetic), the
  stable \<open>sort\<close> by \<open>a.seed - b.seed\<close> is \<^const>\<open>sort_key\<close>, and the loop bound
  \<open>i < bracketSize / 2\<close> (a division of numbers, not of integers) is
  \<open>i < (bracketSize + 1) div 2\<close>.
\<close>

definition generateBracket :: "Player list \<Rightarrow> Bracket" where
  "generateBracket players =
     (let numPlayers = length players
      in if numPlayers < 2 then \<lparr> winners = [] \<rparr>
         else
           let bracketSize = 2 ^ ceillog2 numPlayers;
               sortedPlayers = sort_key seed players;
               playerIds = map (\<lambda>p. Val (p_id p)) sortedPlayers
                           @ replicate (bracketSize - length sortedPlayers) Null;
               seedOrder = getStandardSeedingOrder bracketSize;
               finalPlayerOrder = map (\<lambda>s. js_nth playerIds (s - 1)) seedOrder;
               firstRound = map (firstRoundMatch finalPlayerOrder)
                                [0..<(bracketSize + 1) div 2];
               winnersBracket = buildRounds 1 [firstRound];
               winnersBracket = setNextMatchIds winnersBracket
           in \<lparr> winners = markGrandFinals winnersBracket \<rparr>)"

section \<open>The tournament store (tournamentService)\<close>

text \<open>
  The store is the array kept under the key \<open>tournaments\<close>: \<open>getFromStorage\<close>
  reads it and \<open>setToStorage\<close> replaces it. Every operation takes the stored array
  and returns its result together with the array it leaves in the store. The returned
  tournament is the one handed to \<open>resolveAssetsInTournament\<close>, which only rewrites
  icon and banner references of the copy it returns. The deep copy
  \<open>JSON.parse(JSON.stringify(x))\<close> of a value of the store is that value.
\<close>

type_synonym store = "Tournament list"

subsection \<open>updateTournament\<close>

definition noUpdates :: TournamentUpdates where
  "noUpdates =
     \<lparr> u_id = None, u_name = None, u_gameTitle = None, u_platforms = None,
       u_tournamentType = None, u_matchFormat = None, u_startDate = None, u_endDate = None,
       u_description = None, u_discordLink = None, u_adminPasswordHash = None,
       u_logoUrl = None, u_bannerUrl = None, u_backgroundUrl = None, u_rules = None,
       u_prizePool = None, u_status = None, u_players = None, u_bracket = None,
       u_announcements = None, u_isCitiesTournament = None \<rparr>"

text \<open>The object spread \<open>{ ...t, ...updates }\<close>.\<close>

definition mergeUpdates :: "Tournament \<Rightarrow> TournamentUpdates \<Rightarrow> Tournament" where
  "mergeUpdates t updates =
     \<lparr> t_id = case_option (t_id t) (\<lambda>v. v) (u_id updates),
       name = case_option (name t) (\<lambda>v. v) (u_name updates),
       gameTitle = case_option (gameTitle t) (\<lambda>v. v) (u_gameTitle updates),
       platforms = case_option (platforms t) (\<lambda>v. v) (u_platforms updates),
       tournamentType = case_option (tournamentType t) (\<lambda>v. v) (u_tournamentType updates),
       matchFormat = case_option (matchFormat t) (\<lambda>v. v) (u_matchFormat updates),
       startDate = case_option (startDate t) (\<lambda>v. v) (u_startDate updates),
       endDate = case_option (endDate t) (\<lambda>v. v) (u_endDate updates),
       description = case_option (description t) (\<lambda>v. v) (u_description updates),
       discordLink = case_option (discordLink t) (\<lambda>v. v) (u_discordLink updates),
       adminPasswordHash = case_option (adminPasswordHash t) (\<lambda>v. v) (u_adminPasswordHash updates),
       logoUrl = case_option (logoUrl t) (\<lambda>v. v) (u_logoUrl updates),
       bannerUrl = case_option (bannerUrl t) (\<lambda>v. v) (u_bannerUrl updates),
       backgroundUrl = case_option (backgroundUrl t) (\<lambda>v. v) (u_backgroundUrl updates),
       rules = case_option (rules t) (\<lambda>v. v) (u_rules updates),
       prizePool = case_option (prizePool t) (\<lambda>v. v) (u_prizePool updates),
       status = case_option (status t) (\<lambda>v. v) (u_status updates),
       t_players = case_option (t_players t) (\<lambda>v. v) (u_players updates),
       bracket = case_option (bracket t) (\<lambda>v. v) (u_bracket updates),
       announcements = case_option (announcements t) (\<lambda>v. v) (u_announcements updates),
       isCitiesTournament =
         case_option (isCitiesTournament t) (\<lambda>v. v) (u_isCitiesTournament updates) \<rparr>"

text \<open>
  The callback of \<open>tournaments.map\<close> on a tournament whose id matches. (The
  \<open>alert\<close> of the refused start is not part of the state.)
\<close>

definition applyUpdates :: "TournamentUpdates \<Rightarrow> Tournament \<Rightarrow> Tournament" where
  "applyUpdates updates t =
     (let originalStatus = status t;
          pendingUpdate = mergeUpdates t updates;
          isStartingTournament =
            (originalStatus = REGISTRATION_OPEN \<and> status pendingUpdate = IN_PROGRESS);
          isRevertingTournament =
            (originalStatus = IN_PROGRESS \<and> status pendingUpdate = REGISTRATION_OPEN)
      in if isStartingTournament then
           (if length (t_players pendingUpdate) \<ge> 2 then
              (let sortedPlayers = sort_key seed (t_players pendingUpdate);
                   newBracket = generateBracket sortedPlayers
               in pendingUpdate\<lparr>bracket := Some newBracket\<rparr>)
            else pendingUpdate\<lparr>status := originalStatus\<rparr>)
         else if isRevertingTournament then pendingUpdate\<lparr>bracket := None\<rparr>
         else pendingUpdate)"

text \<open>
  \<open>updatedTournament\<close> is assigned at every tournament whose id matches, so it ends
  as the update of the last one.
\<close>

definition updateTournament ::
  "string \<Rightarrow> TournamentUpdates \<Rightarrow> store \<Rightarrow> Tournament option \<times> store" where
  "updateTournament tournamentId updates tournaments =
     (let newTournaments =
            map (\<lambda>t. if t_id t = tournamentId then applyUpdates updates t else t) tournaments;
          updatedTournament =
            (case filter (\<lambda>t. t_id t = tournamentId) tournaments of
               [] \<Rightarrow> None
             | ts \<Rightarrow> Some (applyUpdates updates (last ts)))
      in (updatedTournament, newTournaments))"

subsection \<open>Finding and changing a match of a bracket\<close>

text \<open>The index at which \<open>Array.prototype.find\<close> (or \<open>indexOf\<close>) stops.\<close>

fun findIndex :: "('a \<Rightarrow> bool) \<Rightarrow> 'a list \<Rightarrow> nat option" where
  "findIndex P [] = None"
| "findIndex P (x # xs) = (if P x then Some 0 else map_option Suc (findIndex P xs))"

text \<open>
  The loop \<open>for (const round of rounds) { const match = round.find(m => P m); if (match) ... }\<close>
  that stops at the first round holding such a match: the round and the position of the
  match it finds.
\<close>

fun locateMatch :: "(Match \<Rightarrow> bool) \<Rightarrow> Match list list \<Rightarrow> (nat \<times> nat) option" where
  "locateMatch P [] = None"
| "locateMatch P (rnd # rest) =
     (case findIndex P rnd of
        Some i \<Rightarrow> Some (0, i)
      | None \<Rightarrow> map_option (\<lambda>(r, i). (Suc r, i)) (locateMatch P rest))"

definition matchAt :: "nat \<times> nat \<Rightarrow> Match list list \<Rightarrow> Match" where
  "matchAt pos rounds = rounds ! fst pos ! snd pos"

text \<open>An assignment to properties of the match object at a position.\<close>

definition modifyMatch ::
  "nat \<times> nat \<Rightarrow> (Match \<Rightarrow> Match) \<Rightarrow> Match list list \<Rightarrow> Match list list" where
  "modifyMatch pos f rounds =
     rounds[fst pos := (rounds ! fst pos)[snd pos := f (rounds ! fst pos ! snd pos)]]"

text \<open>
  An array write \<open>xs[i] = v\<close>: beyond the end it extends the array, leaving holes,
  which read as \<open>undefined\<close>.
\<close>

definition js_set :: "'a nullable list \<Rightarrow> nat \<Rightarrow> 'a nullable \<Rightarrow> 'a nullable list" where
  "js_set xs i v =
     (if i < length xs then xs[i := v]
      else xs @ replicate (i - length xs) Undefined @ [v])"

subsection \<open>updateMatchWinner\<close>

definition findAndAdvance ::
  "string \<Rightarrow> string \<Rightarrow> int list \<Rightarrow> Match list list \<Rightarrow> Match list list" where
  "findAndAdvance matchId winner newScores rounds =
     (case locateMatch (\<lambda>m. m_id m = matchId) rounds of
        None \<Rightarrow> rounds
      | Some pos \<Rightarrow>
          let rounds1 = modifyMatch pos
                 (\<lambda>match. match\<lparr>winnerId := Val winner, scores := newScores,
                                 justCompleted := Some True\<rparr>) rounds;
              match = matchAt pos rounds1
          in if truthy (nextMatchId match) then
               (case locateMatch (\<lambda>m. Val (m_id m) = nextMatchId match) rounds1 of
                  None \<Rightarrow> rounds1
                | Some nextPos \<Rightarrow>
                    let playerIndexInNextMatch = (if matchIndex match mod 2 = 0 then 0 else 1)
                    in modifyMatch nextPos
                         (\<lambda>nextMatch. nextMatch
                            \<lparr>m_players :=
                               js_set (m_players nextMatch) playerIndexInNextMatch (Val winner)\<rparr>)
                         rounds1)
             else rounds1)"

definition updateMatchWinner ::
  "string \<Rightarrow> string \<Rightarrow> string \<Rightarrow> int list \<Rightarrow> store \<Rightarrow> Tournament option \<times> store" where
  "updateMatchWinner tournamentId matchId winner newScores tournaments =
     (case find (\<lambda>t. t_id t = tournamentId) tournaments of
        None \<Rightarrow> (None, tournaments)
      | Some tourney \<Rightarrow>
          (case bracket tourney of
             None \<Rightarrow> (Some tourney, tournaments)
           | Some b \<Rightarrow>
               let newBracket = b\<lparr>winners := findAndAdvance matchId winner newScores (winners b)\<rparr>
               in updateTournament tournamentId
                    (noUpdates\<lparr>u_bracket := Some (Some newBracket)\<rparr>) tournaments))"

subsection \<open>reverseMatchWinner\<close>

datatype error = TournamentNotFound | MatchNotFoundOrNoWinner | SubsequentMatchPlayed

text \<open>
  \<open>const p_idx = match.players.indexOf(originalWinnerId);
  if (p_idx !== -1) match.players[p_idx] = null;\<close>
\<close>

definition clearWinnerSlot :: "string nullable \<Rightarrow> Match \<Rightarrow> Match" where
  "clearWinnerSlot originalWinnerId match =
     (case findIndex (\<lambda>p. p = originalWinnerId) (m_players match) of
        None \<Rightarrow> match
      | Some p_idx \<Rightarrow> match\<lparr>m_players := (m_players match)[p_idx := Null]\<rparr>)"

text \<open>
  The loop of \<open>checkNextMatch\<close> over all rounds, which does not stop at the first
  match it finds: in every round, the first match with the id \<open>nextMatchId\<close> must have
  no winner, and loses the first slot that holds \<open>originalWinnerId\<close>.
\<close>

fun checkRounds ::
  "string nullable \<Rightarrow> string nullable \<Rightarrow> Match list list \<Rightarrow> error + Match list list" where
  "checkRounds nextId originalWinnerId [] = Inr []"
| "checkRounds nextId originalWinnerId (rnd # rest) =
     (case findIndex (\<lambda>m. Val (m_id m) = nextId) rnd of
        None \<Rightarrow>
          (case checkRounds nextId originalWinnerId rest of
             Inl e \<Rightarrow> Inl e
           | Inr rest' \<Rightarrow> Inr (rnd # rest'))
      | Some i \<Rightarrow>
          let match = rnd ! i
          in if truthy (winnerId match) then Inl SubsequentMatchPlayed
             else
               (case checkRounds nextId originalWinnerId rest of
                  Inl e \<Rightarrow> Inl e
                | Inr rest' \<Rightarrow> Inr (rnd[i := clearWinnerSlot originalWinnerId match] # rest')))"

definition checkNextMatch ::
  "string nullable \<Rightarrow> string nullable \<Rightarrow> Match list list \<Rightarrow> error + Match list list" where
  "checkNextMatch nextId originalWinnerId rounds =
     (if \<not> truthy nextId then Inr rounds else checkRounds nextId originalWinnerId rounds)"

definition reverseMatchWinner ::
  "string \<Rightarrow> string \<Rightarrow> store \<Rightarrow> (error + Tournament option) \<times> store" where
  "reverseMatchWinner tournamentId matchId tournaments =
     (case find (\<lambda>t. t_id t = tournamentId) tournaments of
        None \<Rightarrow> (Inl TournamentNotFound, tournaments)
      | Some tourney \<Rightarrow>
          (case bracket tourney of
             None \<Rightarrow> (Inl TournamentNotFound, tournaments)
           | Some b \<Rightarrow>
               (case locateMatch (\<lambda>m. m_id m = matchId) (winners b) of
                  None \<Rightarrow> (Inl MatchNotFoundOrNoWinner, tournaments)
                | Some pos \<Rightarrow>
                    let matchToReverse = matchAt pos (winners b)
                    in if \<not> truthy (winnerId matchToReverse)
                       then (Inl MatchNotFoundOrNoWinner, tournaments)
                       else
                         let originalWinnerId = winnerId matchToReverse
                         in (case checkNextMatch (nextMatchId matchToReverse)
                                     originalWinnerId (winners b) of
                               Inl e \<Rightarrow> (Inl e, tournaments)
                             | Inr rounds \<Rightarrow>
                                 let rounds' = modifyMatch pos
                                        (\<lambda>m. m\<lparr>winnerId := Null, scores := [0, 0],
                                               justCompleted := Some False\<rparr>) rounds;
                                     newBracket = b\<lparr>winners := rounds'\<rparr>;
                                     (updated, newTournaments) =
                                        updateTournament tournamentId
                                          (noUpdates\<lparr>u_bracket := Some (Some newBracket)\<rparr>)
                                          tournaments
                                 in (Inr updated, newTournaments)))))"


section \<open>Auxiliary notions\<close>

text \<open>\<open>xs\<close> lists every seed from 1 to \<open>n\<close> once.\<close>

definition seedPerm :: "nat \<Rightarrow> int list \<Rightarrow> bool" where
  "seedPerm n xs \<longleftrightarrow> length xs = n \<and> distinct xs \<and> set xs = {1..int n}"

text \<open>
  The values that \<open>generateBracket\<close> computes on the way, as functions of the players:
  \<open>playerIds\<close>, \<open>finalPlayerOrder\<close>, \<open>firstRound\<close>, and \<open>winnersBracket\<close> as it
  is when the \<open>while\<close> loop ends.
\<close>

definition playerIdsOf :: "Player list \<Rightarrow> string nullable list" where
  "playerIdsOf players =
     map (\<lambda>p. Val (p_id p)) (sort_key seed players)
     @ replicate (2 ^ ceillog2 (length players) - length (sort_key seed players)) Null"

definition finalPlayerOrderOf :: "Player list \<Rightarrow> string nullable list" where
  "finalPlayerOrderOf players =
     map (\<lambda>s. js_nth (playerIdsOf players) (s - 1))
         (getStandardSeedingOrder (2 ^ ceillog2 (length players)))"

definition firstRoundOf :: "Player list \<Rightarrow> Match list" where
  "firstRoundOf players =
     map (firstRoundMatch (finalPlayerOrderOf players))
         [0..<(2 ^ ceillog2 (length players) + 1) div 2]"

definition unlinkedRounds :: "Player list \<Rightarrow> Match list list" where
  "unlinkedRounds players = buildRounds 1 [firstRoundOf players]"

text \<open>The rounds that follow \<open>previousRound\<close> when \<open>k\<close> more passes of the loop run.\<close>

fun laterRounds :: "nat \<Rightarrow> Match list \<Rightarrow> nat \<Rightarrow> Match list list" where
  "laterRounds rIndex previousRound 0 = []"
| "laterRounds rIndex previousRound (Suc k) =
     newRound rIndex previousRound
       # laterRounds (Suc rIndex) (newRound rIndex previousRound) k"

text \<open>The id \<open>`${r + 1}W${m + 1}`\<close> of the match \<open>m\<close> of round \<open>r\<close> (both 0-based).\<close>

definition idOf :: "nat \<Rightarrow> nat \<Rightarrow> string" where
  "idOf r m = string_of_nat (r + 1) @ ''W'' @ string_of_nat (m + 1)"

text \<open>A position \<open>(r, m)\<close> that exists in a list of rounds.\<close>

definition validPos :: "Match list list \<Rightarrow> nat \<times> nat \<Rightarrow> bool" where
  "validPos rounds pos \<longleftrightarrow> fst pos < length rounds \<and> snd pos < length (rounds ! fst pos)"

subsection \<open>Example data\<close>

definition examplePlayer :: "string \<Rightarrow> int \<Rightarrow> Player" where
  "examplePlayer pid s =
     \<lparr> p_id = pid, gamertag = pid, discordOrIGN = None, icon = ''asset:icon:0'',
       seed = s, selfReportingPasswordHash = ''dGVzdA=='' \<rparr>"

definition exampleMatch ::
  "string \<Rightarrow> int \<Rightarrow> int \<Rightarrow> string nullable list \<Rightarrow> string nullable \<Rightarrow> string nullable
     \<Rightarrow> Match" where
  "exampleMatch mid rIndex mIndex ps w next =
     \<lparr> m_id = mid, roundIndex = rIndex, matchIndex = mIndex, m_players = ps, scores = [0, 0],
       winnerId = w, isBye = Some False, nextMatchId = next, justCompleted = None,
       isGrandFinals = None \<rparr>"

definition exampleTournament ::
  "string \<Rightarrow> TournamentStatus \<Rightarrow> Player list \<Rightarrow> Bracket option \<Rightarrow> Tournament" where
  "exampleTournament tid st ps b =
     \<lparr> t_id = tid, name = ''Cup'', gameTitle = ''Valorant'', platforms = [''PC''],
       tournamentType = SINGLE_ELIMINATION, matchFormat = BEST_OF_3,
       startDate = ''2024-01-01T00:00:00.000Z'', endDate = None, description = [],
       discordLink = None, adminPasswordHash = ''dGVzdA=='', logoUrl = None,
       bannerUrl = None, backgroundUrl = [], rules = None, prizePool = None,
       status = st, t_players = ps, bracket = b, announcements = [],
       isCitiesTournament = Some False \<rparr>"

definition threePlayers :: "Player list" where
  "threePlayers = [examplePlayer ''c'' 3, examplePlayer ''a'' 1, examplePlayer ''b'' 2]"

definition twoPlayers :: "Player list" where
  "twoPlayers = [examplePlayer ''a'' 1, examplePlayer ''b'' 2]"

text \<open>
  The conditions under which \<open>reverseMatchWinner\<close> is to throw: the match named by
  \<open>nextId\<close> (in any round, the first match with that id) has a winner already.
\<close>

definition nextMatchHasWinner :: "string nullable \<Rightarrow> Match list list \<Rightarrow> bool" where
  "nextMatchHasWinner nextId rounds \<longleftrightarrow>
     truthy nextId \<and>
     list_ex (\<lambda>rnd. case find (\<lambda>m. Val (m_id m) = nextId) rnd of
                      None \<Rightarrow> False
                    | Some m \<Rightarrow> truthy (winnerId m)) rounds"

text \<open>
  The tournament or its bracket is missing, the match is not found, the match has no
  winner, or its next match has a winner already.
\<close>

definition reverseRefused :: "string \<Rightarrow> string \<Rightarrow> store \<Rightarrow> bool" where
  "reverseRefused tournamentId matchId tournaments =
     (case find (\<lambda>t. t_id t = tournamentId) tournaments of
        None \<Rightarrow> True
      | Some tourney \<Rightarrow>
          (case bracket tourney of
             None \<Rightarrow> True
           | Some b \<Rightarrow>
               (case locateMatch (\<lambda>m. m_id m = matchId) (winners b) of
                  None \<Rightarrow> True
                | Some pos \<Rightarrow>
                    \<not> truthy (winnerId (matchAt pos (winners b)))
                    \<or> nextMatchHasWinner (nextMatchId (matchAt pos (winners b))) (winners b))))"

text \<open>
  A stored bracket of two first-round matches feeding a final, before any result.
\<close>

definition fourPlayerRounds :: "Match list list" where
  "fourPlayerRounds =
     [[exampleMatch ''1W1'' 0 0 [Val ''p1'', Val ''p4''] Undefined (Val ''2W1''),
       exampleMatch ''1W2'' 0 1 [Val ''p2'', Val ''p3''] Undefined (Val ''2W1'')],
      [exampleMatch ''2W1'' 1 0 [Null, Val ''x''] Undefined Undefined]]"

text \<open>The same bracket after \<open>p3\<close> has won the match \<open>1W2\<close>.\<close>

definition playedRounds :: "Match list list" where
  "playedRounds =
     [[exampleMatch ''1W1'' 0 0 [Val ''p1'', Val ''p4''] Undefined (Val ''2W1''),
       exampleMatch ''1W2'' 0 1 [Val ''p2'', Val ''p3''] (Val ''p3'') (Val ''2W1'')],
      [exampleMatch ''2W1'' 1 0 [Null, Val ''p3''] Undefined Undefined]]"

definition playedStore :: store where
  "playedStore =
     [exampleTournament ''t'' IN_PROGRESS [] (Some \<lparr> winners = playedRounds \<rparr>)]"

definition fourPlayerStore :: store where
  "fourPlayerStore =
     [exampleTournament ''t'' IN_PROGRESS [] (Some \<lparr> winners = fourPlayerRounds \<rparr>),
      exampleTournament ''u'' DRAFT [] None]"

section \<open>Properties of the seeding order\<close>

lemma length_nextRound: "length (nextRound xs) = 2 * length xs"
  by (simp add: nextRound_def length_concat sum_list_triv comp_def)

text \<open>
  The loop of \<open>getStandardSeedingOrder\<close> returns for every \<open>size\<close>: it starts from
  \<open>[1, 2]\<close> and every pass doubles the length of the last round.
\<close>

lemma seedingLoop_terminates_aux:
  "length (last rounds) > 0 \<Longrightarrow> \<exists>rs. seedingLoop sz rounds = Some rs"
proof (induction "sz - length (last rounds)" arbitrary: rounds rule: less_induct)
  case less
  show ?case
  proof (cases "length (last rounds) < sz")
    case True
    let ?r = "rounds @ [nextRound (last rounds)]"
    have "sz - length (last ?r) < sz - length (last rounds)"
      using True less.prems by (cases "last rounds") (simp_all add: length_nextRound)
    moreover have "length (last ?r) > 0" using less.prems by (simp add: length_nextRound)
    ultimately obtain rs where "seedingLoop sz ?r = Some rs" using less.hyps by blast
    then show ?thesis using True by (subst seedingLoop.simps) simp
  next
    case False
    then show ?thesis by (subst seedingLoop.simps) simp
  qed
qed

lemma seedingLoop_terminates: "\<exists>rs. seedingLoop sz [[1, 2]] = Some rs"
  by (rule seedingLoop_terminates_aux) simp

lemma interleave_nth:
  "i < length xs \<Longrightarrow>
     concat (map (\<lambda>seed. [seed, c - seed]) xs) ! (2 * i) = xs ! i \<and>
     concat (map (\<lambda>seed. [seed, c - seed]) xs) ! (2 * i + 1) = (c::int) - xs ! i"
proof (induction xs arbitrary: i)
  case Nil
  then show ?case by simp
next
  case (Cons x xs)
  then show ?case by (cases i) simp_all
qed

lemma nextRound_nth:
  "i < length xs \<Longrightarrow>
     nextRound xs ! (2 * i) = xs ! i \<and>
     nextRound xs ! (2 * i + 1) = int (length xs) * 2 + 1 - xs ! i"
  unfolding nextRound_def Let_def by (rule interleave_nth)

lemma interleave_set:
  "set (concat (map (\<lambda>seed. [seed, c - seed]) xs)) = set xs \<union> (\<lambda>s. (c::int) - s) ` set xs"
  by (induction xs) auto

lemma interleave_distinct:
  "distinct xs \<Longrightarrow> (\<forall>s\<in>set xs. \<forall>t\<in>set xs. s \<noteq> (c::int) - t) \<Longrightarrow>
     distinct (concat (map (\<lambda>seed. [seed, c - seed]) xs))"
proof (induction xs)
  case Nil
  then show ?case by simp
next
  case (Cons x xs)
  then show ?case by (auto simp: interleave_set)
qed


lemma seedPerm_nextRound:
  assumes "seedPerm n xs"
  shows "seedPerm (2 * n) (nextRound xs)"
proof -
  let ?c = "int n * 2 + 1"
  have len: "length xs = n" and d: "distinct xs" and s: "set xs = {1..int n}"
    using assms by (simp_all add: seedPerm_def)
  have img: "(\<lambda>s. ?c - s) ` {1..int n} = {int n + 1..2 * int n}"
  proof (rule set_eqI)
    fix y show "y \<in> (\<lambda>s. ?c - s) ` {1..int n} \<longleftrightarrow> y \<in> {int n + 1..2 * int n}"
    proof
      assume "y \<in> (\<lambda>s. ?c - s) ` {1..int n}" then show "y \<in> {int n + 1..2 * int n}" by auto
    next
      assume y: "y \<in> {int n + 1..2 * int n}"
      then have "?c - y \<in> {1..int n}" by auto
      moreover have "y = ?c - (?c - y)" by simp
      ultimately show "y \<in> (\<lambda>s. ?c - s) ` {1..int n}" by (rule rev_image_eqI)
    qed
  qed
  have "set (nextRound xs) = {1..int n} \<union> {int n + 1..2 * int n}"
    unfolding nextRound_def Let_def interleave_set by (simp add: len s img mult.commute)
  also have "\<dots> = {1..int (2 * n)}" by auto
  finally have set': "set (nextRound xs) = {1..int (2 * n)}" .
  have "distinct (nextRound xs)"
    unfolding nextRound_def Let_def
    by (rule interleave_distinct[OF d]) (auto simp: s len)
  then show ?thesis by (simp add: seedPerm_def length_nextRound len set')
qed

lemma seedingLoop_pow2:
  "length (last rounds) = 2 ^ j \<Longrightarrow> j \<le> k \<Longrightarrow>
     \<exists>rs. seedingLoop (2 ^ k) rounds = Some rs \<and> last rs = (nextRound ^^ (k - j)) (last rounds)"
proof (induction "k - j" arbitrary: j rounds)
  case 0
  then have "j = k" by simp
  then show ?case using 0 by (subst seedingLoop.simps) simp
next
  case (Suc d)
  let ?r = "rounds @ [nextRound (last rounds)]"
  have lt: "length (last rounds) < 2 ^ k" using Suc by simp
  have "d = k - Suc j" "length (last ?r) = 2 ^ Suc j" "Suc j \<le> k"
    using Suc by (simp_all add: length_nextRound)
  from Suc.hyps(1)[OF this] obtain rs where
    rs: "seedingLoop (2 ^ k) ?r = Some rs" "last rs = (nextRound ^^ (k - Suc j)) (last ?r)"
    by blast
  have "k - j = Suc (k - Suc j)" using Suc.hyps(2) by simp
  then have "(nextRound ^^ (k - Suc j)) (last ?r) = (nextRound ^^ (k - j)) (last rounds)"
    by (simp add: funpow_swap1)
  with rs lt show ?case by (subst seedingLoop.simps) simp
qed

lemma funpow_nextRound_perm: "seedPerm (2 ^ Suc d) ((nextRound ^^ d) [1, 2])"
proof (induction d)
  case 0
  have "[1..2::int] = [1, 2]" by (simp add: upto.simps)
  then have "set [1, 2::int] = {1..2}" by (metis set_upto)
  then show ?case by (simp add: seedPerm_def)
next
  case (Suc d)
  have "seedPerm (2 * 2 ^ Suc d) (nextRound ((nextRound ^^ d) [1, 2]))"
    by (rule seedPerm_nextRound[OF Suc])
  then show ?case by (simp only: funpow.simps o_apply power_Suc)
qed

lemma funpow_nextRound_pairs:
  "i < 2 ^ d \<Longrightarrow>
     (nextRound ^^ d) [1, 2] ! (2 * i) + (nextRound ^^ d) [1, 2] ! (2 * i + 1) = 2 ^ Suc d + 1"
proof (cases d)
  case 0
  assume "i < 2 ^ d" with 0 show ?thesis by simp
next
  case (Suc e)
  assume i: "i < 2 ^ d"
  have len: "length ((nextRound ^^ e) [1, 2]) = 2 ^ Suc e"
    using funpow_nextRound_perm[of e] by (simp add: seedPerm_def)
  show ?thesis using nextRound_nth[of i "(nextRound ^^ e) [1, 2]"] i Suc len by simp
qed

lemma funpow_nextRound_head:
  "(nextRound ^^ d) [1, 2] ! 0 = 1 \<and> (nextRound ^^ d) [1, 2] ! 1 = 2 ^ Suc d"
proof (induction d)
  case 0
  then show ?case by simp
next
  case (Suc d)
  have len: "length ((nextRound ^^ d) [1, 2]) = 2 ^ Suc d"
    using funpow_nextRound_perm[of d] by (simp add: seedPerm_def)
  then have "0 < length ((nextRound ^^ d) [1, 2])" by simp
  from nextRound_nth[OF this] Suc len show ?case by simp
qed

lemma seedingLoop_pow2_result:
  "\<exists>rs. seedingLoop (2 ^ Suc d) [[1, 2]] = Some rs \<and> last rs = (nextRound ^^ d) [1, 2]"
proof -
  have "length (last [[1, 2::int]]) = 2 ^ 1" by simp
  from seedingLoop_pow2[OF this, of "Suc d"] show ?thesis by simp
qed

lemma getStandardSeedingOrder_pow2:
  "getStandardSeedingOrder (2 ^ Suc d) = (nextRound ^^ d) [1, 2]"
proof -
  obtain rs where
    "seedingLoop (2 ^ Suc d) [[1, 2]] = Some rs" "last rs = (nextRound ^^ d) [1, 2]"
    using seedingLoop_pow2_result by blast
  moreover have "\<not> (2::nat) ^ Suc d < 2" by simp
  ultimately show ?thesis unfolding getStandardSeedingOrder_def by simp
qed

lemma seedPerm_mset: "seedPerm n xs \<Longrightarrow> mset xs = mset [1..int n]"
proof -
  assume "seedPerm n xs"
  then have "distinct xs" "set xs = set [1..int n]" by (simp_all add: seedPerm_def)
  then show ?thesis using set_eq_iff_mset_eq_distinct[of xs "[1..int n]"] by simp
qed

lemma seedOrder_seedPerm: "seedPerm (2 ^ Suc d) (getStandardSeedingOrder (2 ^ Suc d))"
  unfolding getStandardSeedingOrder_pow2 by (rule funpow_nextRound_perm)

lemma seedOrder_pairs:
  "i < 2 ^ d \<Longrightarrow>
     getStandardSeedingOrder (2 ^ Suc d) ! (2 * i)
       + getStandardSeedingOrder (2 ^ Suc d) ! (2 * i + 1) = 2 ^ Suc d + 1"
  unfolding getStandardSeedingOrder_pow2 by (rule funpow_nextRound_pairs)

text \<open>
  C1. For a bracket size that is a power of two and at least 2, the loop of
  \<open>getStandardSeedingOrder\<close> returns, and its result has \<open>size\<close> entries, is a
  permutation of the seeds 1 to \<open>size\<close>, and has every pair of positions \<open>2i\<close>,
  \<open>2i + 1\<close> sum to \<open>size + 1\<close>: a seed meets the seed \<open>size + 1\<close> minus itself, and
  the first match is seed 1 against seed \<open>size\<close>.
\<close>

theorem getStandardSeedingOrder_one_vs_N:
  assumes "sz = 2 ^ k" and "2 \<le> sz"
  shows "(\<exists>rounds. seedingLoop sz [[1, 2]] = Some rounds
            \<and> getStandardSeedingOrder sz = last rounds)
       \<and> length (getStandardSeedingOrder sz) = sz
       \<and> mset (getStandardSeedingOrder sz) = mset [1..int sz]
       \<and> (\<forall>i < sz div 2. getStandardSeedingOrder sz ! (2 * i)
              + getStandardSeedingOrder sz ! (2 * i + 1) = int sz + 1)
       \<and> getStandardSeedingOrder sz ! 0 = 1
       \<and> getStandardSeedingOrder sz ! 1 = int sz"
proof -
  from assms obtain d where k: "k = Suc d" by (cases k) auto
  have sz: "sz = 2 ^ Suc d" using assms(1) k by simp
  have perm: "seedPerm sz (getStandardSeedingOrder sz)"
    unfolding sz by (rule seedOrder_seedPerm)
  have ret: "\<exists>rounds. seedingLoop sz [[1, 2]] = Some rounds
               \<and> getStandardSeedingOrder sz = last rounds"
    using seedingLoop_pow2_result[of d] getStandardSeedingOrder_pow2[of d] sz by auto
  have pairs: "\<forall>i < sz div 2. getStandardSeedingOrder sz ! (2 * i)
              + getStandardSeedingOrder sz ! (2 * i + 1) = int sz + 1"
    using seedOrder_pairs[of _ d] by (simp add: sz)
  have hd: "getStandardSeedingOrder sz ! 0 = 1 \<and> getStandardSeedingOrder sz ! 1 = int sz"
    unfolding sz getStandardSeedingOrder_pow2 using funpow_nextRound_head[of d] by simp
  from perm have "length (getStandardSeedingOrder sz) = sz" by (simp add: seedPerm_def)
  with ret seedPerm_mset[OF perm] pairs hd show ?thesis by blast
qed

theorem getStandardSeedingOrder_one_vs_N_witness:
  "length (getStandardSeedingOrder 8) = 8
     \<and> mset (getStandardSeedingOrder 8) = mset [1..8]
     \<and> getStandardSeedingOrder 8 ! (2 * 3) + getStandardSeedingOrder 8 ! (2 * 3 + 1) = 9
     \<and> getStandardSeedingOrder 8 = [1, 8, 4, 5, 2, 7, 3, 6]"
proof -
  have h: "(8::nat) = 2 ^ 3" "2 \<le> (8::nat)" by simp_all
  have e: "getStandardSeedingOrder 8 = [1, 8, 4, 5, 2, 7, 3, 6]"
    by (simp add: getStandardSeedingOrder_def seedingLoop.simps nextRound_def)
  have "(3::nat) < 8 div 2" by simp
  with getStandardSeedingOrder_one_vs_N[OF h] e show ?thesis by auto
qed


section \<open>Properties of the tournament store\<close>

subsection \<open>updateTournament\<close>

lemma snd_updateTournament:
  "snd (updateTournament tid updates ts) =
     map (\<lambda>t. if t_id t = tid then applyUpdates updates t else t) ts"
  by (simp add: updateTournament_def Let_def)

lemma mergeUpdates_bracket_only:
  "mergeUpdates t (noUpdates\<lparr>u_bracket := Some nb\<rparr>) = t\<lparr>bracket := nb\<rparr>"
  by (simp add: mergeUpdates_def noUpdates_def)

lemma applyUpdates_bracket_only:
  "applyUpdates (noUpdates\<lparr>u_bracket := Some nb\<rparr>) t = t\<lparr>bracket := nb\<rparr>"
proof -
  have a: "\<not> (status t = REGISTRATION_OPEN \<and> status (t\<lparr>bracket := nb\<rparr>) = IN_PROGRESS)"
    by simp
  have b: "\<not> (status t = IN_PROGRESS \<and> status (t\<lparr>bracket := nb\<rparr>) = REGISTRATION_OPEN)"
    by simp
  show ?thesis
    unfolding applyUpdates_def mergeUpdates_bracket_only Let_def
    by (simp only: a b if_False)
qed

text \<open>
  C7. \<open>updateTournament(id, updates)\<close> stores an array of the same length in which
  every tournament whose id differs from \<open>id\<close> is the stored one, unchanged: only
  tournaments with the given id are modified.
\<close>

theorem updateTournament_frame:
  "length (snd (updateTournament tid updates tournaments)) = length tournaments
   \<and> (\<forall>i < length tournaments. t_id (tournaments ! i) \<noteq> tid \<longrightarrow>
          snd (updateTournament tid updates tournaments) ! i = tournaments ! i)"
  by (simp add: snd_updateTournament)

theorem updateTournament_frame_witness:
  "snd (updateTournament ''t'' (noUpdates\<lparr>u_name := Some ''New''\<rparr>) fourPlayerStore) ! 1
     = exampleTournament ''u'' DRAFT [] None"
proof -
  have "(1::nat) < length fourPlayerStore" "t_id (fourPlayerStore ! 1) \<noteq> ''t''"
       "fourPlayerStore ! 1 = exampleTournament ''u'' DRAFT [] None"
    by (simp_all add: fourPlayerStore_def exampleTournament_def)
  with updateTournament_frame[of "''t''" "noUpdates\<lparr>u_name := Some ''New''\<rparr>" fourPlayerStore]
  show ?thesis by auto
qed

lemma sort_key_seed_idem: "sort_key seed (sort_key seed ps) = sort_key seed ps"
  by (rule sort_key_id_if_sorted) simp

text \<open>
  \<open>updateTournament\<close> sorts the players before it calls \<open>generateBracket\<close>, which
  sorts them again.
\<close>

lemma generateBracket_sorted: "generateBracket (sort_key seed ps) = generateBracket ps"
  unfolding generateBracket_def Let_def sort_key_seed_idem by simp

lemma mergeUpdates_sel:
  "status (mergeUpdates t updates) = (case u_status updates of None \<Rightarrow> status t | Some s \<Rightarrow> s)"
  "t_players (mergeUpdates t updates) = (case u_players updates of None \<Rightarrow> t_players t | Some s \<Rightarrow> s)"
  "bracket (mergeUpdates t updates) = (case u_bracket updates of None \<Rightarrow> bracket t | Some s \<Rightarrow> s)"
  by (simp_all add: mergeUpdates_def)

lemma applyUpdates_start_few:
  assumes "status t = REGISTRATION_OPEN" "u_status updates = Some IN_PROGRESS"
    "length (case u_players updates of None \<Rightarrow> t_players t | Some ps' \<Rightarrow> ps') < 2"
  shows "applyUpdates updates t = (mergeUpdates t updates)\<lparr>status := REGISTRATION_OPEN\<rparr>"
proof -
  have a: "status t = REGISTRATION_OPEN \<and> status (mergeUpdates t updates) = IN_PROGRESS"
    using assms by (simp add: mergeUpdates_sel)
  have b: "\<not> 2 \<le> length (t_players (mergeUpdates t updates))"
    using assms by (simp add: mergeUpdates_sel)
  show ?thesis
    unfolding applyUpdates_def Let_def
    by (subst if_P[OF a], subst if_not_P[OF b], simp only: assms(1))
qed

lemma applyUpdates_start:
  assumes "status t = REGISTRATION_OPEN" "u_status updates = Some IN_PROGRESS"
    "2 \<le> length (case u_players updates of None \<Rightarrow> t_players t | Some ps' \<Rightarrow> ps')"
  shows "applyUpdates updates t = (mergeUpdates t updates)
           \<lparr>bracket := Some (generateBracket (case u_players updates of None \<Rightarrow> t_players t | Some ps' \<Rightarrow> ps'))\<rparr>"
proof -
  have a: "status t = REGISTRATION_OPEN \<and> status (mergeUpdates t updates) = IN_PROGRESS"
    using assms by (simp add: mergeUpdates_sel)
  have b: "2 \<le> length (t_players (mergeUpdates t updates))"
    using assms by (simp add: mergeUpdates_sel)
  show ?thesis
    unfolding applyUpdates_def Let_def
    by (subst if_P[OF a], subst if_P[OF b], simp only: generateBracket_sorted mergeUpdates_sel(2))
qed

lemma applyUpdates_revert:
  assumes "status t = IN_PROGRESS" "u_status updates = Some REGISTRATION_OPEN"
  shows "applyUpdates updates t = (mergeUpdates t updates)\<lparr>bracket := None\<rparr>"
proof -
  have a: "\<not> (status t = REGISTRATION_OPEN \<and> status (mergeUpdates t updates) = IN_PROGRESS)"
    using assms by simp
  have b: "status t = IN_PROGRESS \<and> status (mergeUpdates t updates) = REGISTRATION_OPEN"
    using assms by (simp add: mergeUpdates_sel)
  show ?thesis
    unfolding applyUpdates_def Let_def
    by (subst if_not_P[OF a], subst if_P[OF b], rule refl)
qed

text \<open>
  C10. Let \<open>t\<close> be a stored tournament with the given id, \<open>t'\<close> what
  \<open>updateTournament\<close> stores in its place, and \<open>ps\<close> the players after the update
  (those of \<open>updates\<close> when it carries players, the registered ones otherwise). When
  \<open>t\<close> is open for registration and \<open>updates\<close> sets the status \<open>In Progress\<close>: with
  fewer than 2 players the stored status stays \<open>Open for Registration\<close> and no bracket
  is generated (the bracket is the one \<open>t\<close> or \<open>updates\<close> carried); with 2 or more
  players the stored status is \<open>In Progress\<close> and the stored bracket is the one
  \<open>generateBracket\<close> builds from \<open>ps\<close>. When \<open>t\<close> is in progress and \<open>updates\<close> sets
  the status \<open>Open for Registration\<close>, the stored bracket is \<open>undefined\<close>.
\<close>

theorem updateTournament_start_revert:
  assumes "i < length tournaments" and "t_id (tournaments ! i) = tid"
  shows "(let t = tournaments ! i;
              t' = snd (updateTournament tid updates tournaments) ! i;
              ps = (case u_players updates of None \<Rightarrow> t_players t | Some ps' \<Rightarrow> ps')
          in (status t = REGISTRATION_OPEN \<and> u_status updates = Some IN_PROGRESS \<and> length ps < 2 \<longrightarrow>
                status t' = REGISTRATION_OPEN
                \<and> bracket t' = (case u_bracket updates of None \<Rightarrow> bracket t | Some b \<Rightarrow> b))
           \<and> (status t = REGISTRATION_OPEN \<and> u_status updates = Some IN_PROGRESS \<and> 2 \<le> length ps \<longrightarrow>
                status t' = IN_PROGRESS \<and> bracket t' = Some (generateBracket ps))
           \<and> (status t = IN_PROGRESS \<and> u_status updates = Some REGISTRATION_OPEN \<longrightarrow>
                status t' = REGISTRATION_OPEN \<and> bracket t' = None))"
proof -
  have t': "snd (updateTournament tid updates tournaments) ! i = applyUpdates updates (tournaments ! i)"
    using assms(1,2) by (simp add: snd_updateTournament)
  show ?thesis
    unfolding t' Let_def
    by (simp add: applyUpdates_start_few applyUpdates_start applyUpdates_revert mergeUpdates_sel)
qed

theorem updateTournament_start_revert_witness:
  "status (snd (updateTournament ''t'' (noUpdates\<lparr>u_status := Some IN_PROGRESS\<rparr>)
             [exampleTournament ''t'' REGISTRATION_OPEN [examplePlayer ''a'' 1] None]) ! 0)
     = REGISTRATION_OPEN
   \<and> bracket (snd (updateTournament ''t'' (noUpdates\<lparr>u_status := Some IN_PROGRESS\<rparr>)
             [exampleTournament ''t'' REGISTRATION_OPEN [examplePlayer ''a'' 1] None]) ! 0)
     = None
   \<and> status (snd (updateTournament ''t'' (noUpdates\<lparr>u_status := Some IN_PROGRESS\<rparr>)
             [exampleTournament ''t'' REGISTRATION_OPEN
                [examplePlayer ''a'' 1, examplePlayer ''b'' 2] None]) ! 0)
     = IN_PROGRESS
   \<and> bracket (snd (updateTournament ''t'' (noUpdates\<lparr>u_status := Some IN_PROGRESS\<rparr>)
             [exampleTournament ''t'' REGISTRATION_OPEN
                [examplePlayer ''a'' 1, examplePlayer ''b'' 2] None]) ! 0)
     = Some (generateBracket [examplePlayer ''a'' 1, examplePlayer ''b'' 2])
   \<and> bracket (snd (updateTournament ''t'' (noUpdates\<lparr>u_status := Some REGISTRATION_OPEN\<rparr>)
             [exampleTournament ''t'' IN_PROGRESS
                [examplePlayer ''a'' 1, examplePlayer ''b'' 2]
                (Some (generateBracket [examplePlayer ''a'' 1, examplePlayer ''b'' 2]))]) ! 0)
     = None"
proof -
  let ?start = "noUpdates\<lparr>u_status := Some IN_PROGRESS\<rparr>"
  let ?revert = "noUpdates\<lparr>u_status := Some REGISTRATION_OPEN\<rparr>"
  let ?one = "[exampleTournament ''t'' REGISTRATION_OPEN [examplePlayer ''a'' 1] None]"
  let ?two = "[exampleTournament ''t'' REGISTRATION_OPEN
                [examplePlayer ''a'' 1, examplePlayer ''b'' 2] None]"
  let ?run = "[exampleTournament ''t'' IN_PROGRESS
                [examplePlayer ''a'' 1, examplePlayer ''b'' 2]
                (Some (generateBracket [examplePlayer ''a'' 1, examplePlayer ''b'' 2]))]"
  have a: "0 < length ?one" "t_id (?one ! 0) = ''t''" by (simp_all add: exampleTournament_def)
  have b: "0 < length ?two" "t_id (?two ! 0) = ''t''" by (simp_all add: exampleTournament_def)
  have c: "0 < length ?run" "t_id (?run ! 0) = ''t''" by (simp_all add: exampleTournament_def)
  have u: "u_status ?start = Some IN_PROGRESS" "u_players ?start = None" "u_bracket ?start = None"
          "u_status ?revert = Some REGISTRATION_OPEN" "u_players ?revert = None"
    by (simp_all add: noUpdates_def)
  have s: "status (?one ! 0) = REGISTRATION_OPEN" "t_players (?one ! 0) = [examplePlayer ''a'' 1]"
          "bracket (?one ! 0) = None"
          "status (?two ! 0) = REGISTRATION_OPEN"
          "t_players (?two ! 0) = [examplePlayer ''a'' 1, examplePlayer ''b'' 2]"
          "status (?run ! 0) = IN_PROGRESS"
    by (simp_all add: exampleTournament_def)
  from updateTournament_start_revert[OF a, of ?start]
  have r1: "status (snd (updateTournament ''t'' ?start ?one) ! 0) = REGISTRATION_OPEN
            \<and> bracket (snd (updateTournament ''t'' ?start ?one) ! 0) = None"
    unfolding Let_def u s by simp
  from updateTournament_start_revert[OF b, of ?start]
  have r2: "status (snd (updateTournament ''t'' ?start ?two) ! 0) = IN_PROGRESS
            \<and> bracket (snd (updateTournament ''t'' ?start ?two) ! 0)
                = Some (generateBracket [examplePlayer ''a'' 1, examplePlayer ''b'' 2])"
    unfolding Let_def u s by simp
  from updateTournament_start_revert[OF c, of ?revert]
  have r3: "bracket (snd (updateTournament ''t'' ?revert ?run) ! 0) = None"
    unfolding Let_def u s by simp
  from r1 r2 r3 show ?thesis by blast
qed


subsection \<open>Finding and changing a match\<close>

lemma find_set_bracket:
  "find (\<lambda>t. t_id t = tid) (map (\<lambda>t. if t_id t = tid then t\<lparr>bracket := nb\<rparr> else t) ts)
     = map_option (\<lambda>t. t\<lparr>bracket := nb\<rparr>) (find (\<lambda>t. t_id t = tid) ts)"
  by (induction ts) simp_all

lemma store_after_bracket_update:
  "find (\<lambda>t. t_id t = tid) ts = Some tourney \<Longrightarrow>
   find (\<lambda>t. t_id t = tid)
        (snd (updateTournament tid (noUpdates\<lparr>u_bracket := Some nb\<rparr>) ts))
     = Some (tourney\<lparr>bracket := nb\<rparr>)"
  unfolding snd_updateTournament applyUpdates_bracket_only find_set_bracket by simp

lemma findIndex_Some:
  "findIndex P xs = Some i \<Longrightarrow> i < length xs \<and> P (xs ! i) \<and> (\<forall>j<i. \<not> P (xs ! j))"
proof (induction xs arbitrary: i)
  case Nil
  then show ?case by simp
next
  case (Cons x xs)
  show ?case
  proof (cases "P x")
    case True
    with Cons.prems show ?thesis by simp
  next
    case False
    with Cons.prems obtain k where k: "findIndex P xs = Some k" "i = Suc k" by auto
    from Cons.IH[OF k(1)] False k(2) show ?thesis by (auto simp: nth_Cons split: nat.splits)
  qed
qed

lemma findIndex_None: "findIndex P xs = None \<longleftrightarrow> (\<forall>x\<in>set xs. \<not> P x)"
  by (induction xs) auto

lemma findIndex_update_cong:
  "(\<And>m. P (f m) = P m) \<Longrightarrow> findIndex P (xs[i := f (xs ! i)]) = findIndex P xs"
proof (induction xs arbitrary: i)
  case Nil
  then show ?case by simp
next
  case (Cons x xs)
  then show ?case by (cases i) simp_all
qed

lemma locateMatch_Some:
  "locateMatch P rounds = Some pos \<Longrightarrow>
     fst pos < length rounds \<and> findIndex P (rounds ! fst pos) = Some (snd pos)"
proof (induction rounds arbitrary: pos)
  case Nil
  then show ?case by simp
next
  case (Cons rnd rest)
  show ?case
  proof (cases "findIndex P rnd")
    case (Some i)
    with Cons.prems show ?thesis by auto
  next
    case None
    with Cons.prems obtain q where q: "locateMatch P rest = Some q" "pos = (Suc (fst q), snd q)"
      by (auto split: prod.splits)
    from Cons.IH[OF q(1)] q(2) show ?thesis by simp
  qed
qed

lemma locateMatch_valid:
  assumes "locateMatch P rounds = Some pos"
  shows "fst pos < length rounds" "snd pos < length (rounds ! fst pos)" "P (matchAt pos rounds)"
  using locateMatch_Some[OF assms] findIndex_Some[of P "rounds ! fst pos" "snd pos"]
  by (simp_all add: matchAt_def)

lemma locateMatch_modifyMatch:
  assumes "\<And>m. P (f m) = P m"
  shows "locateMatch P (modifyMatch pos f rounds) = locateMatch P rounds"
proof -
  have "locateMatch P (rounds[r := (rounds ! r)[i := f (rounds ! r ! i)]]) = locateMatch P rounds"
    for r i
  proof (induction rounds arbitrary: r)
    case Nil
    then show ?case by simp
  next
    case (Cons rnd rest)
    show ?case
    proof (cases r)
      case 0
      have "findIndex P (rnd[i := f (rnd ! i)]) = findIndex P rnd"
        using assms by (rule findIndex_update_cong[where P=P and f=f])
      with 0 show ?thesis by simp
    next
      case (Suc r')
      then show ?thesis using Cons.IH[of r'] by (simp split: option.splits)
    qed
  qed
  then show ?thesis by (simp add: modifyMatch_def)
qed

lemma matchAt_modifyMatch_same:
  "fst pos < length rounds \<Longrightarrow> snd pos < length (rounds ! fst pos) \<Longrightarrow>
     matchAt pos (modifyMatch pos f rounds) = f (matchAt pos rounds)"
  by (simp add: matchAt_def modifyMatch_def)

lemma matchAt_modifyMatch_other:
  "pos' \<noteq> pos \<Longrightarrow> matchAt pos' (modifyMatch pos f rounds) = matchAt pos' rounds"
proof -
  assume ne: "pos' \<noteq> pos"
  show ?thesis
  proof (cases "fst pos' = fst pos")
    case True
    with ne have s: "snd pos' \<noteq> snd pos" by (simp add: prod_eq_iff)
    show ?thesis
    proof (cases "fst pos < length rounds")
      case True
      with \<open>fst pos' = fst pos\<close> s show ?thesis by (simp add: matchAt_def modifyMatch_def)
    next
      case False
      then show ?thesis by (simp add: matchAt_def modifyMatch_def list_update_beyond)
    qed
  next
    case False
    then show ?thesis by (simp add: matchAt_def modifyMatch_def)
  qed
qed

lemma modifyMatch_valid:
  "length (modifyMatch pos f rounds) = length rounds"
  "length (modifyMatch pos f rounds ! r) = length (rounds ! r)"
proof -
  show "length (modifyMatch pos f rounds) = length rounds" by (simp add: modifyMatch_def)
  show "length (modifyMatch pos f rounds ! r) = length (rounds ! r)"
  proof (cases "fst pos < length rounds")
    case True
    then show ?thesis by (cases "fst pos = r") (simp_all add: modifyMatch_def)
  next
    case False
    then show ?thesis by (simp add: modifyMatch_def list_update_beyond)
  qed
qed

lemma js_set_nth: "js_set xs i v ! i = v"
  by (simp add: js_set_def nth_append)

lemma findAndAdvance_effect:
  fixes winner :: string and newScores :: "int list"
  assumes loc: "locateMatch (\<lambda>m. m_id m = matchId) rounds = Some pos"
      and tr: "truthy (nextMatchId (matchAt pos rounds))"
      and nloc: "locateMatch (\<lambda>m. Val (m_id m) = nextMatchId (matchAt pos rounds)) rounds = Some nextPos"
  defines "rounds' \<equiv> findAndAdvance matchId winner newScores rounds"
  shows "winnerId (matchAt pos rounds') = Val winner"
    and "scores (matchAt pos rounds') = newScores"
    and "m_players (matchAt nextPos rounds')
           ! (if even (matchIndex (matchAt pos rounds)) then 0 else 1) = Val winner"
proof -
  let ?f = "\<lambda>match. match\<lparr>winnerId := Val winner, scores := newScores, justCompleted := Some True\<rparr>"
  let ?rounds1 = "modifyMatch pos ?f rounds"
  let ?idx = "if matchIndex (matchAt pos rounds) mod 2 = 0 then 0 else (1::nat)"
  let ?g = "\<lambda>nextMatch. nextMatch\<lparr>m_players := js_set (m_players nextMatch) ?idx (Val winner)\<rparr>"
  note v = locateMatch_valid[OF loc]
  note nv = locateMatch_valid[OF nloc]
  have m1: "matchAt pos ?rounds1 = ?f (matchAt pos rounds)"
    using v by (simp add: matchAt_modifyMatch_same)
  have nloc1: "locateMatch (\<lambda>m. Val (m_id m) = nextMatchId (matchAt pos ?rounds1)) ?rounds1 = Some nextPos"
    unfolding m1 using nloc by (simp add: locateMatch_modifyMatch)
  have tr1: "truthy (nextMatchId (matchAt pos ?rounds1))" unfolding m1 using tr by simp
  have r': "rounds' = modifyMatch nextPos ?g ?rounds1"
    unfolding rounds'_def findAndAdvance_def Let_def using loc nloc1 tr1 by (simp add: m1)
  have nv1: "fst nextPos < length ?rounds1" "snd nextPos < length (?rounds1 ! fst nextPos)"
    using nv by (simp_all add: modifyMatch_valid)
  have at_pos: "matchAt pos rounds' = (if nextPos = pos then ?g (?f (matchAt pos rounds)) else ?f (matchAt pos rounds))"
    unfolding r' using nv1 m1
    by (auto simp: matchAt_modifyMatch_same matchAt_modifyMatch_other)
  show "winnerId (matchAt pos rounds') = Val winner" unfolding at_pos by simp
  show "scores (matchAt pos rounds') = newScores" unfolding at_pos by simp
  have "matchAt nextPos rounds' = ?g (matchAt nextPos ?rounds1)"
    unfolding r' using nv1 by (simp add: matchAt_modifyMatch_same)
  then have "m_players (matchAt nextPos rounds') ! ?idx = Val winner"
    by (simp add: js_set_nth)
  moreover have "?idx = (if even (matchIndex (matchAt pos rounds)) then 0 else 1)"
    by (simp add: even_iff_mod_2_eq_zero)
  ultimately show "m_players (matchAt nextPos rounds')
           ! (if even (matchIndex (matchAt pos rounds)) then 0 else 1) = Val winner" by simp
qed


subsection \<open>updateMatchWinner\<close>

text \<open>
  C2. Let the stored tournament with the given id have a bracket in which \<open>pos\<close> is
  the match that \<open>updateMatchWinner\<close> finds for \<open>matchId\<close>, let that match have a
  \<open>nextMatchId\<close> (the guard \<open>if (match.nextMatchId)\<close> passes: every id the code
  writes is a non-empty string \<open>`${r + 1}W${m + 1}`\<close>, so this is the case exactly when
  it is not \<open>null\<close> or \<open>undefined\<close>), and let \<open>nextPos\<close> be the match found for
  it. Then in the bracket stored afterwards the match at \<open>pos\<close> has the given winner
  and scores, and the match at \<open>nextPos\<close> holds the winner in slot 0 when the
  \<open>matchIndex\<close> of the first match is even and in slot 1 when it is odd, whatever that
  slot held before.
\<close>

theorem updateMatchWinner_advances:
  assumes "find (\<lambda>t. t_id t = tournamentId) tournaments = Some tourney"
      and "bracket tourney = Some b"
      and "locateMatch (\<lambda>m. m_id m = matchId) (winners b) = Some pos"
      and "truthy (nextMatchId (matchAt pos (winners b)))"
      and "locateMatch (\<lambda>m. Val (m_id m) = nextMatchId (matchAt pos (winners b))) (winners b)
             = Some nextPos"
  shows "\<exists>tourney' b'.
           find (\<lambda>t. t_id t = tournamentId)
                (snd (updateMatchWinner tournamentId matchId winner newScores tournaments))
             = Some tourney'
         \<and> bracket tourney' = Some b'
         \<and> winnerId (matchAt pos (winners b')) = Val winner
         \<and> scores (matchAt pos (winners b')) = newScores
         \<and> m_players (matchAt nextPos (winners b'))
              ! (if even (matchIndex (matchAt pos (winners b))) then 0 else 1) = Val winner"
proof -
  let ?b' = "b\<lparr>winners := findAndAdvance matchId winner newScores (winners b)\<rparr>"
  have "snd (updateMatchWinner tournamentId matchId winner newScores tournaments)
          = snd (updateTournament tournamentId (noUpdates\<lparr>u_bracket := Some (Some ?b')\<rparr>) tournaments)"
    using assms(1,2) by (simp add: updateMatchWinner_def Let_def)
  then have "find (\<lambda>t. t_id t = tournamentId)
                (snd (updateMatchWinner tournamentId matchId winner newScores tournaments))
             = Some (tourney\<lparr>bracket := Some ?b'\<rparr>)"
    using store_after_bracket_update[OF assms(1)] by simp
  moreover have "bracket (tourney\<lparr>bracket := Some ?b'\<rparr>) = Some ?b'" by simp
  moreover have "winners ?b' = findAndAdvance matchId winner newScores (winners b)" by simp
  ultimately show ?thesis
    using findAndAdvance_effect[OF assms(3,4,5), of winner newScores] by metis
qed

theorem updateMatchWinner_advances_witness:
  "\<exists>tourney' b'.
      find (\<lambda>t. t_id t = ''t'')
           (snd (updateMatchWinner ''t'' ''1W2'' ''p3'' [0, 2] fourPlayerStore)) = Some tourney'
    \<and> bracket tourney' = Some b'
    \<and> winnerId (matchAt (0, 1) (winners b')) = Val ''p3''
    \<and> scores (matchAt (0, 1) (winners b')) = [0, 2]
    \<and> m_players (matchAt (1, 0) (winners b')) ! 1 = Val ''p3''"
proof -
  let ?b = "\<lparr> winners = fourPlayerRounds \<rparr>"
  have h1: "find (\<lambda>t. t_id t = ''t'') fourPlayerStore = Some (fourPlayerStore ! 0)"
    by (simp add: fourPlayerStore_def exampleTournament_def)
  have h2: "bracket (fourPlayerStore ! 0) = Some ?b"
    by (simp add: fourPlayerStore_def exampleTournament_def)
  have h3: "locateMatch (\<lambda>m. m_id m = ''1W2'') (winners ?b) = Some (0, 1)"
    by (simp add: fourPlayerRounds_def exampleMatch_def)
  have h4: "truthy (nextMatchId (matchAt (0, 1) (winners ?b)))"
    by (simp add: fourPlayerRounds_def exampleMatch_def matchAt_def)
  have h5: "locateMatch (\<lambda>m. Val (m_id m) = nextMatchId (matchAt (0, 1) (winners ?b))) (winners ?b)
              = Some (1, 0)"
    by (simp add: fourPlayerRounds_def exampleMatch_def matchAt_def)
  have odd: "\<not> even (matchIndex (matchAt (0, 1) (winners ?b)))"
    by (simp add: fourPlayerRounds_def exampleMatch_def matchAt_def)
  from updateMatchWinner_advances[OF h1 h2 h3 h4 h5, of "''p3''" "[0, 2]"] odd
  show ?thesis by simp
qed

subsection \<open>reverseMatchWinner\<close>

lemma find_findIndex: "find P xs = map_option (\<lambda>i. xs ! i) (findIndex P xs)"
  by (induction xs) (auto simp: option.map_comp comp_def)

lemma checkRounds_isl:
  "isl (checkRounds nextId w rounds) \<longleftrightarrow>
     list_ex (\<lambda>rnd. case find (\<lambda>m. Val (m_id m) = nextId) rnd of
                      None \<Rightarrow> False
                    | Some m \<Rightarrow> truthy (winnerId m)) rounds"
proof (induction rounds)
  case Nil
  then show ?case by simp
next
  case (Cons rnd rest)
  show ?case
  proof (cases "findIndex (\<lambda>m. Val (m_id m) = nextId) rnd")
    case None
    then show ?thesis using Cons
      by (cases "checkRounds nextId w rest") (simp_all add: find_findIndex)
  next
    case (Some i)
    then show ?thesis using Cons
      by (cases "checkRounds nextId w rest") (simp_all add: find_findIndex Let_def)
  qed
qed

lemma checkRounds_Inr:
  "checkRounds nextId w rounds = Inr rounds' \<Longrightarrow>
     length rounds' = length rounds \<and>
     (\<forall>r < length rounds.
        rounds' ! r = (case findIndex (\<lambda>m. Val (m_id m) = nextId) (rounds ! r) of
                         None \<Rightarrow> rounds ! r
                       | Some i \<Rightarrow> (rounds ! r)[i := clearWinnerSlot w (rounds ! r ! i)]))"
proof (induction rounds arbitrary: rounds')
  case Nil
  then show ?case by simp
next
  case (Cons rnd rest)
  from Cons.prems obtain rest' where rest': "checkRounds nextId w rest = Inr rest'"
    by (cases "checkRounds nextId w rest")
       (auto simp: Let_def split: option.splits if_splits)
  note IH = Cons.IH[OF rest']
  let ?hd = "case findIndex (\<lambda>m. Val (m_id m) = nextId) rnd of
               None \<Rightarrow> rnd | Some i \<Rightarrow> rnd[i := clearWinnerSlot w (rnd ! i)]"
  have r: "rounds' = ?hd # rest'"
    using Cons.prems rest' by (auto simp: Let_def split: option.splits if_splits)
  show ?case unfolding r using IH by (auto simp: nth_Cons split: nat.splits option.splits)
qed


lemma checkRounds_lengths:
  assumes "checkRounds nextId w rounds = Inr rounds'"
  shows "length rounds' = length rounds" "r < length rounds \<Longrightarrow> length (rounds' ! r) = length (rounds ! r)"
  using checkRounds_Inr[OF assms] by (auto split: option.splits)

lemma checkRounds_at_next:
  assumes "checkRounds nextId w rounds = Inr rounds'"
      and "locateMatch (\<lambda>m. Val (m_id m) = nextId) rounds = Some nextPos"
  shows "matchAt nextPos rounds' = clearWinnerSlot w (matchAt nextPos rounds)"
proof -
  note l = locateMatch_Some[OF assms(2)] locateMatch_valid[OF assms(2)]
  from checkRounds_Inr[OF assms(1)] l show ?thesis by (simp add: matchAt_def)
qed

lemma m_players_modifyMatch:
  assumes "\<And>m. m_players (f m) = m_players m"
  shows "m_players (matchAt q (modifyMatch pos f rounds)) = m_players (matchAt q rounds)"
proof (cases "q = pos")
  case False
  then show ?thesis by (simp add: matchAt_modifyMatch_other)
next
  case True
  show ?thesis
  proof (cases "fst pos < length rounds \<and> snd pos < length (rounds ! fst pos)")
    case True
    with \<open>q = pos\<close> assms show ?thesis by (simp add: matchAt_modifyMatch_same)
  next
    case False
    then have "modifyMatch pos f rounds = rounds"
      by (auto simp: modifyMatch_def list_update_beyond)
    then show ?thesis by simp
  qed
qed

lemma m_players_clearWinnerSlot:
  "m_players (clearWinnerSlot w m) =
     (case findIndex (\<lambda>p. p = w) (m_players m) of
        None \<Rightarrow> m_players m
      | Some k \<Rightarrow> (m_players m)[k := Null])"
  by (simp add: clearWinnerSlot_def split: option.splits)

lemma checkNextMatch_isl:
  "isl (checkNextMatch nextId w rounds) \<longleftrightarrow> nextMatchHasWinner nextId rounds"
  unfolding checkNextMatch_def nextMatchHasWinner_def
  by (cases "truthy nextId") (simp_all add: checkRounds_isl)

lemma reverseMatchWinner_found:
  assumes "find (\<lambda>t. t_id t = tournamentId) tournaments = Some tourney"
      and "bracket tourney = Some b"
      and "locateMatch (\<lambda>m. m_id m = matchId) (winners b) = Some pos"
  shows "reverseMatchWinner tournamentId matchId tournaments =
           (if \<not> truthy (winnerId (matchAt pos (winners b)))
            then (Inl MatchNotFoundOrNoWinner, tournaments)
            else (case checkNextMatch (nextMatchId (matchAt pos (winners b)))
                         (winnerId (matchAt pos (winners b))) (winners b) of
                    Inl e \<Rightarrow> (Inl e, tournaments)
                  | Inr rounds \<Rightarrow>
                      (Inr (fst (updateTournament tournamentId
                             (noUpdates\<lparr>u_bracket := Some (Some (b\<lparr>winners :=
                                modifyMatch pos (\<lambda>m. m\<lparr>winnerId := Null, scores := [0, 0],
                                   justCompleted := Some False\<rparr>) rounds\<rparr>))\<rparr>) tournaments)),
                       snd (updateTournament tournamentId
                             (noUpdates\<lparr>u_bracket := Some (Some (b\<lparr>winners :=
                                modifyMatch pos (\<lambda>m. m\<lparr>winnerId := Null, scores := [0, 0],
                                   justCompleted := Some False\<rparr>) rounds\<rparr>))\<rparr>) tournaments))))"
  unfolding reverseMatchWinner_def Let_def split_def
  by (simp only: assms option.case) 

lemma reverseMatchWinner_refused:
  "isl (fst (reverseMatchWinner tournamentId matchId tournaments))
     \<longleftrightarrow> reverseRefused tournamentId matchId tournaments"
proof (cases "find (\<lambda>t. t_id t = tournamentId) tournaments")
  case None
  then show ?thesis by (simp add: reverseMatchWinner_def reverseRefused_def)
next
  case (Some tourney)
  note f = this
  show ?thesis
  proof (cases "bracket tourney")
    case None
    with f show ?thesis by (simp add: reverseMatchWinner_def reverseRefused_def)
  next
    case (Some b)
    note br = this
    show ?thesis
    proof (cases "locateMatch (\<lambda>m. m_id m = matchId) (winners b)")
      case None
      with f br show ?thesis by (simp add: reverseMatchWinner_def reverseRefused_def)
    next
      case (Some pos)
      have ref: "reverseRefused tournamentId matchId tournaments \<longleftrightarrow>
                   \<not> truthy (winnerId (matchAt pos (winners b)))
                   \<or> nextMatchHasWinner (nextMatchId (matchAt pos (winners b))) (winners b)"
        by (simp add: reverseRefused_def f br Some)
      show ?thesis
        unfolding ref reverseMatchWinner_found[OF f br Some]
          checkNextMatch_isl[symmetric, where w="winnerId (matchAt pos (winners b))"]
        by (simp split: sum.splits)
    qed
  qed
qed

lemma reverseMatchWinner_atomic:
  assumes "isl (fst (reverseMatchWinner tournamentId matchId tournaments))"
  shows "snd (reverseMatchWinner tournamentId matchId tournaments) = tournaments"
proof (cases "find (\<lambda>t. t_id t = tournamentId) tournaments")
  case None
  then show ?thesis by (simp add: reverseMatchWinner_def)
next
  case (Some tourney)
  note f = this
  show ?thesis
  proof (cases "bracket tourney")
    case None
    with f show ?thesis by (simp add: reverseMatchWinner_def)
  next
    case (Some b)
    note br = this
    show ?thesis
    proof (cases "locateMatch (\<lambda>m. m_id m = matchId) (winners b)")
      case None
      with f br show ?thesis by (simp add: reverseMatchWinner_def)
    next
      case (Some pos)
      show ?thesis
        using assms unfolding reverseMatchWinner_found[OF f br Some]
        by (simp split: sum.splits if_splits)
    qed
  qed
qed


lemma reverseMatchWinner_success:
  assumes f: "find (\<lambda>t. t_id t = tournamentId) tournaments = Some tourney"
      and br: "bracket tourney = Some b"
      and loc: "locateMatch (\<lambda>m. m_id m = matchId) (winners b) = Some pos"
      and ok: "\<not> isl (fst (reverseMatchWinner tournamentId matchId tournaments))"
  shows "\<exists>tourney' b'.
           find (\<lambda>t. t_id t = tournamentId)
                (snd (reverseMatchWinner tournamentId matchId tournaments)) = Some tourney'
         \<and> bracket tourney' = Some b'
         \<and> winnerId (matchAt pos (winners b')) = Null
         \<and> scores (matchAt pos (winners b')) = [0, 0]
         \<and> (\<forall>nextPos.
               truthy (nextMatchId (matchAt pos (winners b)))
               \<and> locateMatch (\<lambda>m. Val (m_id m) = nextMatchId (matchAt pos (winners b))) (winners b)
                   = Some nextPos \<longrightarrow>
               m_players (matchAt nextPos (winners b')) =
                 (case findIndex (\<lambda>p. p = winnerId (matchAt pos (winners b)))
                         (m_players (matchAt nextPos (winners b))) of
                    None \<Rightarrow> m_players (matchAt nextPos (winners b))
                  | Some k \<Rightarrow> (m_players (matchAt nextPos (winners b)))[k := Null]))"
proof -
  let ?m = "matchAt pos (winners b)"
  let ?f = "\<lambda>m. m\<lparr>winnerId := Null, scores := [0, 0], justCompleted := Some False\<rparr>"
  note found = reverseMatchWinner_found[OF f br loc]
  from ok found obtain rounds where
    chk: "checkNextMatch (nextMatchId ?m) (winnerId ?m) (winners b) = Inr rounds"
    by (cases "checkNextMatch (nextMatchId ?m) (winnerId ?m) (winners b)")
       (auto split: if_splits)
  from ok found have tr: "truthy (winnerId ?m)" by (auto split: if_splits)
  let ?b' = "b\<lparr>winners := modifyMatch pos ?f rounds\<rparr>"
  have snd_r: "snd (reverseMatchWinner tournamentId matchId tournaments) =
                 snd (updateTournament tournamentId (noUpdates\<lparr>u_bracket := Some (Some ?b')\<rparr>)
                        tournaments)"
    unfolding found using tr chk by simp
  have st: "find (\<lambda>t. t_id t = tournamentId)
                (snd (reverseMatchWinner tournamentId matchId tournaments))
              = Some (tourney\<lparr>bracket := Some ?b'\<rparr>)"
    unfolding snd_r by (rule store_after_bracket_update[OF f])
  note v = locateMatch_valid[OF loc]
  have len: "length rounds = length (winners b)"
            "length (rounds ! fst pos) = length (winners b ! fst pos)"
  proof -
    show "length rounds = length (winners b)"
      using chk checkRounds_lengths(1)
      by (auto simp: checkNextMatch_def split: if_splits)
    show "length (rounds ! fst pos) = length (winners b ! fst pos)"
      using chk checkRounds_lengths(2) v(1)
      by (auto simp: checkNextMatch_def split: if_splits)
  qed
  have at_pos: "matchAt pos (modifyMatch pos ?f rounds) = ?f (matchAt pos rounds)"
    using v len by (simp add: matchAt_modifyMatch_same)
  have next_players: "m_players (matchAt nextPos (modifyMatch pos ?f rounds)) =
           (case findIndex (\<lambda>p. p = winnerId ?m) (m_players (matchAt nextPos (winners b))) of
              None \<Rightarrow> m_players (matchAt nextPos (winners b))
            | Some k \<Rightarrow> (m_players (matchAt nextPos (winners b)))[k := Null])"
    if nt: "truthy (nextMatchId ?m)"
       and nl: "locateMatch (\<lambda>m. Val (m_id m) = nextMatchId ?m) (winners b) = Some nextPos"
    for nextPos
  proof -
    from chk nt have "checkRounds (nextMatchId ?m) (winnerId ?m) (winners b) = Inr rounds"
      by (simp add: checkNextMatch_def)
    from checkRounds_at_next[OF this nl]
    have "matchAt nextPos rounds = clearWinnerSlot (winnerId ?m) (matchAt nextPos (winners b))" .
    then show ?thesis
      by (simp add: m_players_modifyMatch m_players_clearWinnerSlot)
  qed
  show ?thesis
    using st at_pos next_players by (intro exI[of _ "tourney\<lparr>bracket := Some ?b'\<rparr>"] exI[of _ ?b']) simp
qed


text \<open>
  C9. \<open>reverseMatchWinner(tournamentId, matchId)\<close> throws exactly when the
  tournament or its bracket is missing, the match is not found, the match has no winner
  (its \<open>winnerId\<close> is falsy), or the match named by its \<open>nextMatchId\<close> has a winner
  already. Whenever it throws, the stored tournaments are unchanged. When it returns,
  the stored bracket has \<open>winnerId = null\<close> and \<open>scores = [0, 0]\<close> at the match, and
  the next match has lost the former winner: the first of its slots that held the
  winner is \<open>null\<close>, and its other slots are as before.
\<close>

theorem reverseMatchWinner_contract:
  "(isl (fst (reverseMatchWinner tournamentId matchId tournaments))
      \<longleftrightarrow> reverseRefused tournamentId matchId tournaments)
   \<and> (isl (fst (reverseMatchWinner tournamentId matchId tournaments))
      \<longrightarrow> snd (reverseMatchWinner tournamentId matchId tournaments) = tournaments)
   \<and> (\<forall>tourney b pos.
        find (\<lambda>t. t_id t = tournamentId) tournaments = Some tourney
        \<and> bracket tourney = Some b
        \<and> locateMatch (\<lambda>m. m_id m = matchId) (winners b) = Some pos
        \<and> \<not> isl (fst (reverseMatchWinner tournamentId matchId tournaments)) \<longrightarrow>
        (\<exists>tourney' b'.
           find (\<lambda>t. t_id t = tournamentId)
                (snd (reverseMatchWinner tournamentId matchId tournaments)) = Some tourney'
         \<and> bracket tourney' = Some b'
         \<and> winnerId (matchAt pos (winners b')) = Null
         \<and> scores (matchAt pos (winners b')) = [0, 0]
         \<and> (\<forall>nextPos.
               truthy (nextMatchId (matchAt pos (winners b)))
               \<and> locateMatch (\<lambda>m. Val (m_id m) = nextMatchId (matchAt pos (winners b))) (winners b)
                   = Some nextPos \<longrightarrow>
               m_players (matchAt nextPos (winners b')) =
                 (case findIndex (\<lambda>p. p = winnerId (matchAt pos (winners b)))
                         (m_players (matchAt nextPos (winners b))) of
                    None \<Rightarrow> m_players (matchAt nextPos (winners b))
                  | Some k \<Rightarrow> (m_players (matchAt nextPos (winners b)))[k := Null]))))"
  using reverseMatchWinner_refused reverseMatchWinner_atomic reverseMatchWinner_success
  by blast

theorem reverseMatchWinner_contract_witness:
  "isl (fst (reverseMatchWinner ''t'' ''1W1'' playedStore))
   \<and> snd (reverseMatchWinner ''t'' ''1W1'' playedStore) = playedStore
   \<and> \<not> isl (fst (reverseMatchWinner ''t'' ''1W2'' playedStore))
   \<and> (\<exists>tourney' b'.
         find (\<lambda>t. t_id t = ''t'') (snd (reverseMatchWinner ''t'' ''1W2'' playedStore))
           = Some tourney'
       \<and> bracket tourney' = Some b'
       \<and> winnerId (matchAt (0, 1) (winners b')) = Null
       \<and> scores (matchAt (0, 1) (winners b')) = [0, 0]
       \<and> m_players (matchAt (1, 0) (winners b')) = [Null, Null])"
proof -
  let ?b = "\<lparr> winners = playedRounds \<rparr>"
  have f: "find (\<lambda>t. t_id t = ''t'') playedStore = Some (playedStore ! 0)"
    by (simp add: playedStore_def exampleTournament_def)
  have br: "bracket (playedStore ! 0) = Some ?b"
    by (simp add: playedStore_def exampleTournament_def)
  have loc1: "locateMatch (\<lambda>m. m_id m = ''1W1'') playedRounds = Some (0, 0)"
    by (simp add: playedRounds_def exampleMatch_def)
  have loc2: "locateMatch (\<lambda>m. m_id m = ''1W2'') playedRounds = Some (0, 1)"
    by (simp add: playedRounds_def exampleMatch_def)
  have m1: "\<not> truthy (winnerId (matchAt (0, 0) playedRounds))"
    by (simp add: playedRounds_def exampleMatch_def matchAt_def)
  have m2: "winnerId (matchAt (0, 1) playedRounds) = Val ''p3''"
           "nextMatchId (matchAt (0, 1) playedRounds) = Val ''2W1''"
    by (simp_all add: playedRounds_def exampleMatch_def matchAt_def)
  have nl: "locateMatch (\<lambda>m. Val (m_id m) = Val ''2W1'') playedRounds = Some (1, 0)"
    by (simp add: playedRounds_def exampleMatch_def)
  have np: "m_players (matchAt (1, 0) playedRounds) = [Null, Val ''p3'']"
    by (simp add: playedRounds_def exampleMatch_def matchAt_def)
  have nw: "\<not> nextMatchHasWinner (Val ''2W1'') playedRounds"
    by (simp add: nextMatchHasWinner_def playedRounds_def exampleMatch_def)
  have ref1: "reverseRefused ''t'' ''1W1'' playedStore"
    using loc1 m1 by (simp add: reverseRefused_def f br)
  have ref2: "\<not> reverseRefused ''t'' ''1W2'' playedStore"
    using loc2 m2 nw by (simp add: reverseRefused_def f br)
  note c1 = reverseMatchWinner_contract[of "''t''" "''1W1''" playedStore]
  note c2 = reverseMatchWinner_contract[of "''t''" "''1W2''" playedStore]
  from c1 ref1 have r1: "isl (fst (reverseMatchWinner ''t'' ''1W1'' playedStore))"
    "snd (reverseMatchWinner ''t'' ''1W1'' playedStore) = playedStore" by blast+
  from c2 ref2 have ok: "\<not> isl (fst (reverseMatchWinner ''t'' ''1W2'' playedStore))" by blast
  have loc2': "locateMatch (\<lambda>m. m_id m = ''1W2'') (winners ?b) = Some (0, 1)"
    using loc2 by simp
  from c2 f br loc2' ok obtain tourney' b' where s:
    "find (\<lambda>t. t_id t = ''t'') (snd (reverseMatchWinner ''t'' ''1W2'' playedStore)) = Some tourney'"
    "bracket tourney' = Some b'"
    "winnerId (matchAt (0, 1) (winners b')) = Null"
    "scores (matchAt (0, 1) (winners b')) = [0, 0]"
    "\<forall>nextPos.
        truthy (nextMatchId (matchAt (0, 1) (winners ?b)))
        \<and> locateMatch (\<lambda>m. Val (m_id m) = nextMatchId (matchAt (0, 1) (winners ?b))) (winners ?b)
            = Some nextPos \<longrightarrow>
        m_players (matchAt nextPos (winners b')) =
          (case findIndex (\<lambda>p. p = winnerId (matchAt (0, 1) (winners ?b)))
                  (m_players (matchAt nextPos (winners ?b))) of
             None \<Rightarrow> m_players (matchAt nextPos (winners ?b))
           | Some k \<Rightarrow> (m_players (matchAt nextPos (winners ?b)))[k := Null])"
    by blast
  from s(5)[rule_format, of "(1, 0)"] nl m2 np
  have "m_players (matchAt (1, 0) (winners b')) = [Null, Null]"
    by simp
  with r1 ok s(1-4) show ?thesis by blast
qed



section \<open>Properties of the generated bracket\<close>

subsection \<open>The rounds\<close>

lemma generateBracket_winners:
  "2 \<le> length players \<Longrightarrow>
     winners (generateBracket players) = markGrandFinals (setNextMatchIds (unlinkedRounds players))"
  by (simp add: generateBracket_def Let_def unlinkedRounds_def firstRoundOf_def
      finalPlayerOrderOf_def playerIdsOf_def)

lemma length_newRound: "length (newRound rIndex prev) = (length prev + 1) div 2"
  by (simp add: newRound_def)

lemma newRound_nth:
  "i < (length prev + 1) div 2 \<Longrightarrow> newRound rIndex prev ! i = laterRoundMatch rIndex prev (2 * i)"
  by (simp add: newRound_def)

lemma buildRounds_pow2:
  "length prev = 2 ^ k \<Longrightarrow>
     buildRounds rIndex (wb @ [prev]) = wb @ prev # laterRounds rIndex prev k"
proof (induction k arbitrary: rIndex wb prev)
  case 0
  then show ?case by (subst buildRounds.simps) simp
next
  case (Suc k)
  have len: "length (newRound rIndex prev) = 2 ^ k"
    using Suc.prems by (simp add: length_newRound)
  have "(1::nat) \<le> 2 ^ k" by simp
  then have "(1::nat) < 2 * 2 ^ k" by linarith
  then have gt: "1 < length prev" using Suc.prems by simp
  have "buildRounds rIndex (wb @ [prev])
          = buildRounds (rIndex + 1) ((wb @ [prev]) @ [newRound rIndex prev])"
    using gt by (subst buildRounds.simps) simp
  also have "\<dots> = (wb @ [prev]) @ newRound rIndex prev
                     # laterRounds (rIndex + 1) (newRound rIndex prev) k"
    by (rule Suc.IH[OF len])
  finally show ?case by simp
qed

lemma laterRounds_length: "length (laterRounds rIndex prev k) = k"
  by (induction k arbitrary: rIndex prev) simp_all

lemma laterRounds_step:
  "j < k \<Longrightarrow>
     (prev # laterRounds rIndex prev k) ! Suc j
       = newRound (rIndex + j) ((prev # laterRounds rIndex prev k) ! j)"
proof (induction k arbitrary: rIndex prev j)
  case 0
  then show ?case by simp
next
  case (Suc k)
  show ?case
  proof (cases j)
    case 0
    then show ?thesis by simp
  next
    case (Suc j')
    with Suc.prems have "j' < k" by simp
    from Suc.IH[OF this, of "newRound rIndex prev" "Suc rIndex"] Suc show ?thesis by simp
  qed
qed

lemma laterRounds_round_length:
  "length prev = 2 ^ k \<Longrightarrow> j \<le> k \<Longrightarrow>
     length ((prev # laterRounds rIndex prev k) ! j) = 2 ^ (k - j)"
proof (induction k arbitrary: rIndex prev j)
  case 0
  then show ?case by simp
next
  case (Suc k)
  show ?case
  proof (cases j)
    case 0
    with Suc.prems show ?thesis by simp
  next
    case (Suc j')
    have len: "length (newRound rIndex prev) = 2 ^ k"
      using Suc.prems by (simp add: length_newRound)
    from Suc.prems \<open>j = Suc j'\<close> have "j' \<le> k" by simp
    from Suc.IH[OF len this, of "Suc rIndex"] \<open>j = Suc j'\<close> show ?thesis by simp
  qed
qed


lemma ceillog2_ge1: "2 \<le> n \<Longrightarrow> 1 \<le> ceillog2 n"
  using ceillog2_ge_iff[of n 1] by simp

lemma string_of_nat_1: "string_of_nat (Suc 0) = ''1''"
  by (simp add: string_of_nat.simps digit_char_def)

lemma firstRoundMatch_fields:
  "m_id (firstRoundMatch fpo i) = idOf 0 i"
  "roundIndex (firstRoundMatch fpo i) = 0"
  "matchIndex (firstRoundMatch fpo i) = int i"
  "m_players (firstRoundMatch fpo i) = [js_nth fpo (int i * 2), js_nth fpo (int i * 2 + 1)]"
  "scores (firstRoundMatch fpo i) = [0, 0]"
  "nextMatchId (firstRoundMatch fpo i) = Undefined"
  "isGrandFinals (firstRoundMatch fpo i) = None"
  "isBye (firstRoundMatch fpo i) =
     Some ((js_nth fpo (int i * 2) \<noteq> Null \<and> js_nth fpo (int i * 2 + 1) = Null)
           \<or> (js_nth fpo (int i * 2) = Null \<and> js_nth fpo (int i * 2 + 1) \<noteq> Null))"
  "winnerId (firstRoundMatch fpo i) =
     (if (js_nth fpo (int i * 2) \<noteq> Null \<and> js_nth fpo (int i * 2 + 1) = Null)
           \<or> (js_nth fpo (int i * 2) = Null \<and> js_nth fpo (int i * 2 + 1) \<noteq> Null)
      then (if js_nth fpo (int i * 2) \<noteq> Null then js_nth fpo (int i * 2)
            else js_nth fpo (int i * 2 + 1))
      else Undefined)"
  by (simp_all add: firstRoundMatch_def Let_def idOf_def string_of_nat_1)

lemma laterRoundMatch_fields:
  "m_id (laterRoundMatch r prev (2 * j)) = idOf r j"
  "roundIndex (laterRoundMatch r prev (2 * j)) = int r"
  "matchIndex (laterRoundMatch r prev (2 * j)) = int j"
  "m_players (laterRoundMatch r prev (2 * j)) =
     [if isBye (prev ! (2 * j)) = Some True then winnerId (prev ! (2 * j)) else Null,
      if 2 * j + 1 < length prev \<and> isBye (prev ! (2 * j + 1)) = Some True
      then winnerId (prev ! (2 * j + 1)) else Null]"
  "scores (laterRoundMatch r prev (2 * j)) = [0, 0]"
  "winnerId (laterRoundMatch r prev (2 * j)) = Undefined"
  "isBye (laterRoundMatch r prev (2 * j)) = None"
  "nextMatchId (laterRoundMatch r prev (2 * j)) = Undefined"
  "isGrandFinals (laterRoundMatch r prev (2 * j)) = None"
  by (simp_all add: laterRoundMatch_def Let_def idOf_def)

lemma length_firstRoundOf:
  assumes "2 \<le> length players"
  shows "length (firstRoundOf players) = 2 ^ (ceillog2 (length players) - 1)"
proof -
  from ceillog2_ge1[OF assms] obtain k where k: "ceillog2 (length players) = Suc k"
    by (cases "ceillog2 (length players)") auto
  show ?thesis by (simp add: firstRoundOf_def k)
qed

lemma unlinkedRounds_eq:
  assumes "2 \<le> length players"
  shows "unlinkedRounds players =
           firstRoundOf players
             # laterRounds 1 (firstRoundOf players) (ceillog2 (length players) - 1)"
  using buildRounds_pow2[OF length_firstRoundOf[OF assms], of 1 "[]"]
  by (simp add: unlinkedRounds_def)

lemma unlinkedRounds_length:
  assumes "2 \<le> length players"
  shows "length (unlinkedRounds players) = ceillog2 (length players)"
  using ceillog2_ge1[OF assms] by (simp add: unlinkedRounds_eq[OF assms] laterRounds_length)

lemma unlinkedRounds_round_length:
  assumes "2 \<le> length players" and "r < ceillog2 (length players)"
  shows "length (unlinkedRounds players ! r) = 2 ^ (ceillog2 (length players) - 1 - r)"
  unfolding unlinkedRounds_eq[OF assms(1)]
  using laterRounds_round_length[OF length_firstRoundOf[OF assms(1)], of r 1] assms(2)
  by simp

lemma unlinkedRounds_first:
  assumes "2 \<le> length players"
  shows "unlinkedRounds players ! 0 = firstRoundOf players"
  by (simp add: unlinkedRounds_eq[OF assms])

lemma unlinkedRounds_Suc:
  assumes "2 \<le> length players" and "Suc r < ceillog2 (length players)"
  shows "unlinkedRounds players ! Suc r = newRound (Suc r) (unlinkedRounds players ! r)"
  unfolding unlinkedRounds_eq[OF assms(1)]
  using laterRounds_step[of r "ceillog2 (length players) - 1" "firstRoundOf players" 1] assms(2)
  by simp

lemma unlinkedRounds_ids:
  assumes "2 \<le> length players" and "r < ceillog2 (length players)"
      and "i < length (unlinkedRounds players ! r)"
  shows "m_id (unlinkedRounds players ! r ! i) = idOf r i"
    and "roundIndex (unlinkedRounds players ! r ! i) = int r"
    and "matchIndex (unlinkedRounds players ! r ! i) = int i"
    and "nextMatchId (unlinkedRounds players ! r ! i) = Undefined"
    and "isGrandFinals (unlinkedRounds players ! r ! i) = None"
proof -
  have "m_id (unlinkedRounds players ! r ! i) = idOf r i
      \<and> roundIndex (unlinkedRounds players ! r ! i) = int r
      \<and> matchIndex (unlinkedRounds players ! r ! i) = int i
      \<and> nextMatchId (unlinkedRounds players ! r ! i) = Undefined
      \<and> isGrandFinals (unlinkedRounds players ! r ! i) = None"
  proof (cases r)
    case 0
    with assms(3) have "i < length (firstRoundOf players)"
      by (simp add: unlinkedRounds_first[OF assms(1)])
    then show ?thesis
      unfolding 0 unlinkedRounds_first[OF assms(1)]
      by (simp add: firstRoundOf_def firstRoundMatch_fields)
  next
    case (Suc r')
    have eq: "unlinkedRounds players ! r = newRound r (unlinkedRounds players ! r')"
      using unlinkedRounds_Suc[OF assms(1), of r'] assms(2) Suc by simp
    have "i < (length (unlinkedRounds players ! r') + 1) div 2"
      using assms(3) unfolding eq by (simp add: length_newRound)
    then show ?thesis
      unfolding eq by (simp add: newRound_nth laterRoundMatch_fields)
  qed
  then show "m_id (unlinkedRounds players ! r ! i) = idOf r i"
    and "roundIndex (unlinkedRounds players ! r ! i) = int r"
    and "matchIndex (unlinkedRounds players ! r ! i) = int i"
    and "nextMatchId (unlinkedRounds players ! r ! i) = Undefined"
    and "isGrandFinals (unlinkedRounds players ! r ! i) = None"
    by simp_all
qed

lemma setNextMatchIds_length:
  "length (setNextMatchIds wb) = length wb"
  "r < length wb \<Longrightarrow> length (setNextMatchIds wb ! r) = length (wb ! r)"
  by (simp_all add: setNextMatchIds_def)

lemma setNextMatchIds_nth:
  "r < length wb \<Longrightarrow> i < length (wb ! r) \<Longrightarrow>
     setNextMatchIds wb ! r ! i =
       (if r + 1 < length wb then (wb ! r ! i)\<lparr>nextMatchId := Val (idOf (r + 1) (i div 2))\<rparr>
        else wb ! r ! i)"
  by (simp add: setNextMatchIds_def idOf_def)

lemma markGrandFinals_single:
  assumes "wb \<noteq> []" and "length (last wb) = 1"
  shows "markGrandFinals wb = butlast wb @ [[(last wb ! 0)\<lparr>isGrandFinals := Some True\<rparr>]]"
proof -
  from assms(2) obtain fm where "last wb = [fm]"
    by (cases "last wb") auto
  then show ?thesis by (simp add: markGrandFinals_def)
qed


text \<open>The match at a position of the generated bracket.\<close>

lemma generateBracket_shape:
  assumes "2 \<le> length players"
  shows "length (winners (generateBracket players)) = ceillog2 (length players)"
    and "r < ceillog2 (length players) \<Longrightarrow>
           length (winners (generateBracket players) ! r)
             = 2 ^ (ceillog2 (length players) - 1 - r)"
    and "r < ceillog2 (length players) \<Longrightarrow> i < 2 ^ (ceillog2 (length players) - 1 - r) \<Longrightarrow>
           winners (generateBracket players) ! r ! i =
             (if r + 1 < ceillog2 (length players)
              then (unlinkedRounds players ! r ! i)\<lparr>nextMatchId := Val (idOf (r + 1) (i div 2))\<rparr>
              else (unlinkedRounds players ! r ! i)\<lparr>isGrandFinals := Some True\<rparr>)"
proof -
  let ?R = "ceillog2 (length players)"
  let ?u = "unlinkedRounds players"
  let ?s = "setNextMatchIds ?u"
  have R: "1 \<le> ?R" by (rule ceillog2_ge1[OF assms])
  have lu: "length ?u = ?R" by (rule unlinkedRounds_length[OF assms])
  have ls: "length ?s = ?R" by (simp add: setNextMatchIds_length lu)
  have lr: "length (?s ! r) = 2 ^ (?R - 1 - r)" if "r < ?R" for r
    using that by (simp add: setNextMatchIds_length lu unlinkedRounds_round_length[OF assms])
  have ne: "?s \<noteq> []" using ls R by auto
  have last_s: "last ?s = ?s ! (?R - 1)" using ne ls by (simp add: last_conv_nth)
  have ll: "length (last ?s) = 1" unfolding last_s using lr[of "?R - 1"] R by simp
  have w: "winners (generateBracket players)
             = butlast ?s @ [[(last ?s ! 0)\<lparr>isGrandFinals := Some True\<rparr>]]"
    unfolding generateBracket_winners[OF assms] by (rule markGrandFinals_single[OF ne ll])
  show len: "length (winners (generateBracket players)) = ?R"
    unfolding w using ls R by simp
  have nth_w: "winners (generateBracket players) ! r =
          (if r + 1 < ?R then ?s ! r else [(?s ! r ! 0)\<lparr>isGrandFinals := Some True\<rparr>])"
    if "r < ?R" for r
  proof (cases "r + 1 < ?R")
    case True
    then have "r < length (butlast ?s)" using ls by simp
    then show ?thesis unfolding w using True by (simp add: nth_append nth_butlast)
  next
    case False
    with that have r: "r = ?R - 1" by simp
    have "length (butlast ?s) = ?R - 1" using ls by simp
    then show ?thesis unfolding w last_s using False r by (simp add: nth_append)
  qed
  show "length (winners (generateBracket players) ! r) = 2 ^ (?R - 1 - r)" if "r < ?R"
  proof (cases "r + 1 < ?R")
    case True
    then show ?thesis using nth_w[OF that] lr[OF that] by simp
  next
    case False
    with that have "?R - 1 - r = 0" by simp
    then show ?thesis using nth_w[OF that] False by simp
  qed
  show "winners (generateBracket players) ! r ! i =
             (if r + 1 < ?R
              then (?u ! r ! i)\<lparr>nextMatchId := Val (idOf (r + 1) (i div 2))\<rparr>
              else (?u ! r ! i)\<lparr>isGrandFinals := Some True\<rparr>)"
    if r: "r < ?R" and i: "i < 2 ^ (?R - 1 - r)"
  proof -
    have iu: "i < length (?u ! r)" using i unlinkedRounds_round_length[OF assms r] by simp
    have ru: "r < length ?u" using r lu by simp
    show ?thesis
    proof (cases "r + 1 < ?R")
      case True
      then show ?thesis
        using nth_w[OF r] setNextMatchIds_nth[OF ru iu] lu by simp
    next
      case False
      with r have "?R - 1 - r = 0" by simp
      with i have i0: "i = 0" by simp
      show ?thesis
        using nth_w[OF r] setNextMatchIds_nth[OF ru iu] lu False i0 by simp
    qed
  qed
qed


lemma generateBracket_fields:
  assumes "2 \<le> length players" and "r < ceillog2 (length players)"
      and "i < 2 ^ (ceillog2 (length players) - 1 - r)"
  shows "m_id (winners (generateBracket players) ! r ! i) = idOf r i"
    and "roundIndex (winners (generateBracket players) ! r ! i) = int r"
    and "matchIndex (winners (generateBracket players) ! r ! i) = int i"
    and "m_players (winners (generateBracket players) ! r ! i)
           = m_players (unlinkedRounds players ! r ! i)"
    and "isBye (winners (generateBracket players) ! r ! i)
           = isBye (unlinkedRounds players ! r ! i)"
    and "winnerId (winners (generateBracket players) ! r ! i)
           = winnerId (unlinkedRounds players ! r ! i)"
    and "scores (winners (generateBracket players) ! r ! i)
           = scores (unlinkedRounds players ! r ! i)"
    and "nextMatchId (winners (generateBracket players) ! r ! i)
           = (if r + 1 < ceillog2 (length players) then Val (idOf (r + 1) (i div 2))
              else Undefined)"
    and "isGrandFinals (winners (generateBracket players) ! r ! i)
           = (if r + 1 < ceillog2 (length players) then None else Some True)"
proof -
  have iu: "i < length (unlinkedRounds players ! r)"
    using assms(3) unlinkedRounds_round_length[OF assms(1,2)] by simp
  note ids = unlinkedRounds_ids[OF assms(1,2) iu]
  note sh = generateBracket_shape(3)[OF assms]
  show "m_id (winners (generateBracket players) ! r ! i) = idOf r i"
    unfolding sh using ids by simp
  show "roundIndex (winners (generateBracket players) ! r ! i) = int r"
    unfolding sh using ids by simp
  show "matchIndex (winners (generateBracket players) ! r ! i) = int i"
    unfolding sh using ids by simp
  show "m_players (winners (generateBracket players) ! r ! i)
           = m_players (unlinkedRounds players ! r ! i)"
    unfolding sh by simp
  show "isBye (winners (generateBracket players) ! r ! i)
           = isBye (unlinkedRounds players ! r ! i)"
    unfolding sh by simp
  show "winnerId (winners (generateBracket players) ! r ! i)
           = winnerId (unlinkedRounds players ! r ! i)"
    unfolding sh by simp
  show "scores (winners (generateBracket players) ! r ! i)
           = scores (unlinkedRounds players ! r ! i)"
    unfolding sh by simp
  show "nextMatchId (winners (generateBracket players) ! r ! i)
           = (if r + 1 < ceillog2 (length players) then Val (idOf (r + 1) (i div 2))
              else Undefined)"
    unfolding sh using ids by simp
  show "isGrandFinals (winners (generateBracket players) ! r ! i)
           = (if r + 1 < ceillog2 (length players) then None else Some True)"
    unfolding sh using ids by simp
qed

lemma ceillog2_real: "0 < n \<Longrightarrow> nat \<lceil>log 2 (real n)\<rceil> = ceillog2 n"
  by (simp add: ceillog2_def)

text \<open>
  C3. For a player list of length \<open>n \<ge> 2\<close>, \<open>generateBracket\<close> returns
  \<open>R = \<lceil>log\<^sub>2 n\<rceil>\<close> rounds (at least one), round \<open>r\<close> has \<open>2 ^ (R - 1 - r)\<close> matches,
  every match \<open>m\<close> of a round \<open>r\<close> before the last has \<open>matchIndex = m\<close> and, as its
  \<open>nextMatchId\<close>, the id of the match \<open>m div 2\<close> of round \<open>r + 1\<close>, and the single match
  of the last round is marked \<open>isGrandFinals\<close>.
\<close>

theorem generateBracket_binary_tree:
  assumes "2 \<le> length players"
  shows "(let R = nat \<lceil>log 2 (real (length players))\<rceil>;
              rounds = winners (generateBracket players)
          in 1 \<le> R \<and> length rounds = R
             \<and> (\<forall>r < R. length (rounds ! r) = 2 ^ (R - 1 - r))
             \<and> (\<forall>r m. r + 1 < R \<and> m < length (rounds ! r) \<longrightarrow>
                   matchIndex (rounds ! r ! m) = int m
                   \<and> nextMatchId (rounds ! r ! m) = Val (m_id (rounds ! (r + 1) ! (m div 2))))
             \<and> isGrandFinals (rounds ! (R - 1) ! 0) = Some True)"
proof -
  let ?R = "ceillog2 (length players)"
  let ?rounds = "winners (generateBracket players)"
  have "0 < length players" using assms by linarith
  then have R: "nat \<lceil>log 2 (real (length players))\<rceil> = ?R"
    by (rule ceillog2_real)
  have R1: "1 \<le> ?R" by (rule ceillog2_ge1[OF assms])
  have len: "length ?rounds = ?R" by (rule generateBracket_shape(1)[OF assms])
  have rl: "\<forall>r < ?R. length (?rounds ! r) = 2 ^ (?R - 1 - r)"
    using generateBracket_shape(2)[OF assms] by blast
  have link: "matchIndex (?rounds ! r ! m) = int m
              \<and> nextMatchId (?rounds ! r ! m) = Val (m_id (?rounds ! (r + 1) ! (m div 2)))"
    if r: "r + 1 < ?R" and m: "m < length (?rounds ! r)" for r m
  proof -
    from r have r': "r < ?R" by simp
    have m': "m < 2 ^ (?R - 1 - r)" using m generateBracket_shape(2)[OF assms r'] by simp
    have "?R - 1 - r = Suc (?R - 1 - (r + 1))" using r by simp
    then have "(2::nat) ^ (?R - 1 - r) = 2 * 2 ^ (?R - 1 - (r + 1))" by simp
    with m' have d: "m div 2 < 2 ^ (?R - 1 - (r + 1))" by simp
    show ?thesis
      using generateBracket_fields(3,8)[OF assms r' m'] generateBracket_fields(1)[OF assms r d] r
      by simp
  qed
  have fin: "isGrandFinals (?rounds ! (?R - 1) ! 0) = Some True"
    using generateBracket_fields(9)[OF assms, of "?R - 1" 0] R1 by simp
  show ?thesis unfolding Let_def R using R1 len rl link fin by blast
qed


lemma ceillog2_3: "ceillog2 3 = 2"
  by (rule ceillog2_eqI) simp_all

theorem generateBracket_binary_tree_witness:
  "length (winners (generateBracket threePlayers)) = 2
   \<and> length (winners (generateBracket threePlayers) ! 0) = 2
   \<and> length (winners (generateBracket threePlayers) ! 1) = 1
   \<and> nextMatchId (winners (generateBracket threePlayers) ! 0 ! 1)
        = Val (m_id (winners (generateBracket threePlayers) ! 1 ! 0))
   \<and> isGrandFinals (winners (generateBracket threePlayers) ! 1 ! 0) = Some True"
proof -
  have n: "length threePlayers = 3" by (simp add: threePlayers_def)
  have h: "2 \<le> length threePlayers" by (simp add: n)
  have R: "nat \<lceil>log 2 (real (length threePlayers))\<rceil> = 2"
    unfolding n using ceillog2_real[of 3] ceillog2_3 by simp
  note t = generateBracket_binary_tree[OF h, unfolded Let_def R]
  from t have l: "length (winners (generateBracket threePlayers)) = 2" by blast
  from t have l0: "length (winners (generateBracket threePlayers) ! 0) = 2 ^ (2 - 1 - 0)"
    by (metis pos2)
  from t have l1: "length (winners (generateBracket threePlayers) ! 1) = 2 ^ (2 - 1 - 1)"
    by (metis one_less_numeral_iff semiring_norm(76))
  from l0 have m: "(0::nat) + 1 < 2 \<and> 1 < length (winners (generateBracket threePlayers) ! 0)"
    by simp
  from t m have nx: "nextMatchId (winners (generateBracket threePlayers) ! 0 ! 1)
        = Val (m_id (winners (generateBracket threePlayers) ! (0 + 1) ! (1 div 2)))" by blast
  from t have g: "isGrandFinals (winners (generateBracket threePlayers) ! (2 - 1) ! 0) = Some True"
    by blast
  from l l0 l1 nx g show ?thesis by simp
qed



subsection \<open>The first round\<close>

lemma bracketSize_bounds:
  assumes "2 \<le> n"
  shows "n \<le> 2 ^ ceillog2 n" and "2 ^ ceillog2 n < 2 * n"
  using le_two_power_ceillog2[of n] two_power_ceillog2_gt[of n] assms by simp_all

lemma length_playerIdsOf: "length (playerIdsOf players) = 2 ^ ceillog2 (length players)"
  using le_two_power_ceillog2[of "length players"] by (simp add: playerIdsOf_def)

lemma playerIdsOf_nth:
  "j < 2 ^ ceillog2 (length players) \<Longrightarrow>
     playerIdsOf players ! j =
       (if j < length players then Val (p_id (sort_key seed players ! j)) else Null)"
  by (simp add: playerIdsOf_def nth_append)

lemma seedOrder_range:
  assumes "j < 2 ^ Suc d"
  shows "1 \<le> getStandardSeedingOrder (2 ^ Suc d) ! j"
    and "getStandardSeedingOrder (2 ^ Suc d) ! j \<le> int (2 ^ Suc d)"
proof -
  let ?so = "getStandardSeedingOrder (2 ^ Suc d)"
  have p: "seedPerm (2 ^ Suc d) ?so" by (rule seedOrder_seedPerm)
  from p have len: "length ?so = 2 ^ Suc d" unfolding seedPerm_def by blast
  from p have st: "set ?so = {1..int (2 ^ Suc d)}" unfolding seedPerm_def by blast
  have "?so ! j \<in> set ?so" using assms len by (intro nth_mem) simp
  then have m: "?so ! j \<in> {1..int (2 ^ Suc d)}" unfolding st .
  from m show "1 \<le> ?so ! j" by simp
  from m show "?so ! j \<le> int (2 ^ Suc d)" by (simp del: of_nat_power power_Suc)
qed

lemma js_nth_nat: "k < length xs \<Longrightarrow> js_nth xs (int k) = xs ! k"
  by (simp add: js_nth_def)

text \<open>
  The two slots of the first-round match \<open>i\<close> hold the players seeded \<open>a\<close> and
  \<open>b = size + 1 - a\<close>, where \<open>a\<close> is the entry \<open>2i\<close> of the seeding order.
\<close>

lemma firstRound_slots:
  assumes n: "2 \<le> length players" and i: "i < 2 ^ (ceillog2 (length players) - 1)"
  shows "\<exists>a b. 0 < a \<and> a \<le> 2 ^ ceillog2 (length players)
             \<and> 0 < b \<and> b \<le> 2 ^ ceillog2 (length players)
             \<and> a + b = 2 ^ ceillog2 (length players) + 1
             \<and> a = nat (getStandardSeedingOrder (2 ^ ceillog2 (length players)) ! (2 * i))
             \<and> js_nth (finalPlayerOrderOf players) (int i * 2) = playerIdsOf players ! (a - 1)
             \<and> js_nth (finalPlayerOrderOf players) (int i * 2 + 1) = playerIdsOf players ! (b - 1)"
proof -
  from ceillog2_ge1[OF n] obtain d where R: "ceillog2 (length players) = Suc d"
    by (cases "ceillog2 (length players)") auto
  let ?S = "(2::nat) ^ Suc d"
  let ?so = "getStandardSeedingOrder ?S"
  have i': "i < 2 ^ d" using i R by simp
  then have j: "2 * i < ?S" "2 * i + 1 < ?S" by simp_all
  have lso: "length ?so = ?S" using seedOrder_seedPerm[of d] unfolding seedPerm_def by blast
  note ra = seedOrder_range[OF j(1)] and rb = seedOrder_range[OF j(2)]
  have sum: "?so ! (2 * i) + ?so ! (2 * i + 1) = 2 ^ Suc d + 1"
    by (rule seedOrder_pairs[OF i'])
  let ?a = "nat (?so ! (2 * i))" and ?b = "nat (?so ! (2 * i + 1))"
  have lf: "length (finalPlayerOrderOf players) = ?S"
    using lso by (simp add: finalPlayerOrderOf_def R)
  have f1: "js_nth (finalPlayerOrderOf players) (int i * 2)
              = js_nth (playerIdsOf players) (?so ! (2 * i) - 1)"
  proof -
    have e: "int i * 2 = int (2 * i)" by simp
    have "2 * i < length (finalPlayerOrderOf players)" unfolding lf by (rule j(1))
    then have "js_nth (finalPlayerOrderOf players) (int i * 2) = finalPlayerOrderOf players ! (2 * i)"
      unfolding e by (rule js_nth_nat)
    also have "\<dots> = js_nth (playerIdsOf players) (?so ! (2 * i) - 1)"
      using j(1) lso by (simp add: finalPlayerOrderOf_def R)
    finally show ?thesis .
  qed
  have f2: "js_nth (finalPlayerOrderOf players) (int i * 2 + 1)
              = js_nth (playerIdsOf players) (?so ! (2 * i + 1) - 1)"
  proof -
    have e: "int i * 2 + 1 = int (2 * i + 1)" by simp
    have "2 * i + 1 < length (finalPlayerOrderOf players)" unfolding lf by (rule j(2))
    then have "js_nth (finalPlayerOrderOf players) (int i * 2 + 1)
            = finalPlayerOrderOf players ! (2 * i + 1)"
      unfolding e by (rule js_nth_nat)
    also have "\<dots> = js_nth (playerIdsOf players) (?so ! (2 * i + 1) - 1)"
      using j(2) lso by (simp add: finalPlayerOrderOf_def R)
    finally show ?thesis .
  qed
  have g: "js_nth (playerIdsOf players) (s - 1) = playerIdsOf players ! (nat s - 1)"
    if "1 \<le> s" "s \<le> int (2 ^ Suc d)" for s :: int
  proof -
    have e: "s - 1 = int (nat s - 1)" using that by simp
    have "nat s \<le> 2 ^ Suc d" using that(2) unfolding nat_le_iff .
    with that have "nat s - 1 < length (playerIdsOf players)"
      unfolding length_playerIdsOf R by linarith
    then show ?thesis unfolding e by (rule js_nth_nat)
  qed
  note g1 = g[OF ra] and g2 = g[OF rb]
  have S_int: "int ?S = 2 ^ Suc d" by simp
  have "0 < ?a" "0 < ?b" using ra(1) rb(1) by linarith+
  moreover have "?a \<le> ?S" "?b \<le> ?S" using ra(2) rb(2) unfolding nat_le_iff .
  moreover have "int (?a + ?b) = int (?S + 1)" using sum ra(1) rb(1) S_int by linarith
  then have "?a + ?b = ?S + 1" by (rule int_int_eq[THEN iffD1])
  ultimately show ?thesis unfolding R using f1 f2 g1 g2 by (intro exI[of _ ?a] exI[of _ ?b]) simp
qed


lemma playerIdsOf_cases:
  assumes "j < 2 ^ ceillog2 (length players)"
  shows "(j < length players \<and> (\<exists>p. playerIdsOf players ! j = Val p))
       \<or> (length players \<le> j \<and> playerIdsOf players ! j = Null)"
  using playerIdsOf_nth[OF assms] by auto

lemma generateBracket_first_round:
  assumes n: "2 \<le> length players" and i: "i < 2 ^ (ceillog2 (length players) - 1)"
  shows "m_players (winners (generateBracket players) ! 0 ! i)
           = m_players (firstRoundMatch (finalPlayerOrderOf players) i)"
    and "isBye (winners (generateBracket players) ! 0 ! i)
           = isBye (firstRoundMatch (finalPlayerOrderOf players) i)"
    and "winnerId (winners (generateBracket players) ! 0 ! i)
           = winnerId (firstRoundMatch (finalPlayerOrderOf players) i)"
    and "scores (winners (generateBracket players) ! 0 ! i) = [0, 0]"
proof -
  have R: "0 < ceillog2 (length players)" using ceillog2_ge1[OF n] by simp
  have i': "i < 2 ^ (ceillog2 (length players) - 1 - 0)" using i by simp
  have "i < length (firstRoundOf players)" using i length_firstRoundOf[OF n] by simp
  then have "i < (2 ^ ceillog2 (length players) + 1) div 2" by (simp add: firstRoundOf_def)
  then have u: "unlinkedRounds players ! 0 ! i = firstRoundMatch (finalPlayerOrderOf players) i"
    unfolding unlinkedRounds_first[OF n] firstRoundOf_def by simp
  note f = generateBracket_fields[OF n R i']
  show "m_players (winners (generateBracket players) ! 0 ! i)
           = m_players (firstRoundMatch (finalPlayerOrderOf players) i)"
    using f(4) u by simp
  show "isBye (winners (generateBracket players) ! 0 ! i)
           = isBye (firstRoundMatch (finalPlayerOrderOf players) i)"
    using f(5) u by simp
  show "winnerId (winners (generateBracket players) ! 0 ! i)
           = winnerId (firstRoundMatch (finalPlayerOrderOf players) i)"
    using f(6) u by simp
  show "scores (winners (generateBracket players) ! 0 ! i) = [0, 0]"
    using f(7) u by (simp add: firstRoundMatch_fields)
qed

text \<open>
  The first-round match \<open>i\<close> in terms of the padded list of player ids: its slots hold
  the entries \<open>a - 1\<close> and \<open>b - 1\<close>, where \<open>a + b\<close> is the bracket size plus one.
\<close>

lemma firstRound_match:
  assumes n: "2 \<le> length players" and i: "i < 2 ^ (ceillog2 (length players) - 1)"
  shows "\<exists>a b p1 p2.
           0 < a \<and> a \<le> 2 ^ ceillog2 (length players)
         \<and> 0 < b \<and> b \<le> 2 ^ ceillog2 (length players)
         \<and> a + b = 2 ^ ceillog2 (length players) + 1
         \<and> p1 = playerIdsOf players ! (a - 1) \<and> p2 = playerIdsOf players ! (b - 1)
         \<and> m_players (winners (generateBracket players) ! 0 ! i) = [p1, p2]
         \<and> isBye (winners (generateBracket players) ! 0 ! i)
              = Some ((p1 \<noteq> Null \<and> p2 = Null) \<or> (p1 = Null \<and> p2 \<noteq> Null))
         \<and> winnerId (winners (generateBracket players) ! 0 ! i)
              = (if (p1 \<noteq> Null \<and> p2 = Null) \<or> (p1 = Null \<and> p2 \<noteq> Null)
                 then (if p1 \<noteq> Null then p1 else p2) else Undefined)"
proof -
  from firstRound_slots[OF n i] obtain a b where ab:
    "0 < a" "a \<le> 2 ^ ceillog2 (length players)"
    "0 < b" "b \<le> 2 ^ ceillog2 (length players)"
    "a + b = 2 ^ ceillog2 (length players) + 1"
    "js_nth (finalPlayerOrderOf players) (int i * 2) = playerIdsOf players ! (a - 1)"
    "js_nth (finalPlayerOrderOf players) (int i * 2 + 1) = playerIdsOf players ! (b - 1)"
    by blast
  note g = generateBracket_first_round[OF n i]
  show ?thesis
    apply (rule exI[of _ a], rule exI[of _ b])
    apply (rule exI[of _ "playerIdsOf players ! (a - 1)"])
    apply (rule exI[of _ "playerIdsOf players ! (b - 1)"])
    using ab(1-5) unfolding g firstRoundMatch_fields ab(6,7)
    by simp
qed


lemma first_round_index:
  assumes n: "2 \<le> length players" and i: "i < length (winners (generateBracket players) ! 0)"
  shows "i < 2 ^ (ceillog2 (length players) - 1)"
proof -
  have "0 < ceillog2 (length players)" using ceillog2_ge1[OF n] by simp
  from generateBracket_shape(2)[OF n this] i show ?thesis by simp
qed

text \<open>
  C8. For a player list of length \<open>n \<ge> 2\<close> the bracket size \<open>2 ^ \<lceil>log\<^sub>2 n\<rceil>\<close> is less
  than \<open>2n\<close>, and every first-round match of \<open>generateBracket\<close> has a player in at
  least one of its two slots: no match is a double bye.
\<close>

theorem firstRound_no_double_bye:
  assumes n: "2 \<le> length players" and i: "i < length (winners (generateBracket players) ! 0)"
  shows "2 ^ nat \<lceil>log 2 (real (length players))\<rceil> < 2 * length players
       \<and> (\<exists>p. m_players (winners (generateBracket players) ! 0 ! i) ! 0 = Val p
              \<or> m_players (winners (generateBracket players) ! 0 ! i) ! 1 = Val p)"
proof -
  let ?R = "ceillog2 (length players)"
  have "0 < length players" using n by linarith
  then have R: "nat \<lceil>log 2 (real (length players))\<rceil> = ?R" by (rule ceillog2_real)
  have lt: "2 ^ ?R < 2 * length players" by (rule bracketSize_bounds(2)[OF n])
  from firstRound_match[OF n first_round_index[OF n i]] obtain a b p1 p2 where ab:
    "0 < a" "a \<le> 2 ^ ?R" "0 < b" "b \<le> 2 ^ ?R" "a + b = 2 ^ ?R + 1"
    "p1 = playerIdsOf players ! (a - 1)" "p2 = playerIdsOf players ! (b - 1)"
    "m_players (winners (generateBracket players) ! 0 ! i) = [p1, p2]"
    by blast
  have "a \<le> length players \<or> b \<le> length players" using ab(5) lt by linarith
  then have "\<exists>p. p1 = Val p \<or> p2 = Val p"
  proof
    assume "a \<le> length players"
    then have "a - 1 < 2 ^ ?R" "a - 1 < length players" using ab(1,2) by linarith+
    with playerIdsOf_cases[of "a - 1" players] ab(6) show ?thesis by auto
  next
    assume "b \<le> length players"
    then have "b - 1 < 2 ^ ?R" "b - 1 < length players" using ab(3,4) by linarith+
    with playerIdsOf_cases[of "b - 1" players] ab(7) show ?thesis by auto
  qed
  with lt show ?thesis unfolding R ab(8) by simp
qed

theorem firstRound_no_double_bye_witness:
  "2 ^ nat \<lceil>log 2 (real (length threePlayers))\<rceil> < 2 * length threePlayers
   \<and> (\<exists>p. m_players (winners (generateBracket threePlayers) ! 0 ! 0) ! 0 = Val p
          \<or> m_players (winners (generateBracket threePlayers) ! 0 ! 0) ! 1 = Val p)"
proof -
  have h1: "2 \<le> length threePlayers" by (simp add: threePlayers_def)
  have h2: "0 < length (winners (generateBracket threePlayers) ! 0)" by code_simp
  show ?thesis by (rule firstRound_no_double_bye[OF h1 h2])
qed

lemma bye_is_advanced:
  assumes n: "2 \<le> length players" and i: "i < length (winners (generateBracket players) ! 0)"
  shows "(let rounds = winners (generateBracket players);
              m = rounds ! 0 ! i;
              p1 = m_players m ! 0;
              p2 = m_players m ! 1
          in length (m_players m) = 2 \<and> p1 \<noteq> Undefined \<and> p2 \<noteq> Undefined
             \<and> isBye m = Some ((p1 = Null) \<noteq> (p2 = Null))
             \<and> (isBye m = Some True \<longrightarrow>
                   (\<exists>w. winnerId m = Val w
                        \<and> (p1 = Val w \<and> p2 = Null \<or> p1 = Null \<and> p2 = Val w)
                        \<and> 1 < length rounds \<and> i div 2 < length (rounds ! 1)
                        \<and> m_players (rounds ! 1 ! (i div 2)) ! (i mod 2) = Val w)))"
proof -
  let ?R = "ceillog2 (length players)"
  let ?rounds = "winners (generateBracket players)"
  let ?m = "?rounds ! 0 ! i"
  note i' = first_round_index[OF n i]
  from firstRound_match[OF n i'] obtain a b p1 p2 where ab:
    "0 < a" "a \<le> 2 ^ ?R" "0 < b" "b \<le> 2 ^ ?R" "a + b = 2 ^ ?R + 1"
    "p1 = playerIdsOf players ! (a - 1)" "p2 = playerIdsOf players ! (b - 1)"
    and mp: "m_players ?m = [p1, p2]"
    and bye: "isBye ?m = Some ((p1 \<noteq> Null \<and> p2 = Null) \<or> (p1 = Null \<and> p2 \<noteq> Null))"
    and win: "winnerId ?m = (if (p1 \<noteq> Null \<and> p2 = Null) \<or> (p1 = Null \<and> p2 \<noteq> Null)
                             then (if p1 \<noteq> Null then p1 else p2) else Undefined)"
    by blast
  have ra: "a - 1 < 2 ^ ?R" and rb: "b - 1 < 2 ^ ?R" using ab(1-4) by linarith+
  have c1: "(\<exists>p. p1 = Val p) \<or> (length players \<le> a - 1 \<and> p1 = Null)"
    using playerIdsOf_cases[OF ra] ab(6) by auto
  have c2: "(\<exists>p. p2 = Val p) \<or> (length players \<le> b - 1 \<and> p2 = Null)"
    using playerIdsOf_cases[OF rb] ab(7) by auto
  have u1: "p1 \<noteq> Undefined" using c1 by auto
  have u2: "p2 \<noteq> Undefined" using c2 by auto
  have bye': "isBye ?m = Some ((p1 = Null) \<noteq> (p2 = Null))" unfolding bye by auto
  have adv: "\<exists>w. winnerId ?m = Val w
                \<and> (p1 = Val w \<and> p2 = Null \<or> p1 = Null \<and> p2 = Val w)
                \<and> 1 < length ?rounds \<and> i div 2 < length (?rounds ! 1)
                \<and> m_players (?rounds ! 1 ! (i div 2)) ! (i mod 2) = Val w"
    if isb: "isBye ?m = Some True"
  proof -
    from isb bye have ex1: "(p1 \<noteq> Null \<and> p2 = Null) \<or> (p1 = Null \<and> p2 \<noteq> Null)" by simp
    with c1 c2 win obtain w where w: "winnerId ?m = Val w"
      "p1 = Val w \<and> p2 = Null \<or> p1 = Null \<and> p2 = Val w" by auto
    from ex1 c1 c2 have "length players < 2 ^ ?R" using ra rb by auto
    with n have "2 < (2::nat) ^ ?R" by linarith
    then have R2: "1 < ?R" by (cases "?R"; cases "?R - 1") auto
    then have R0: "0 < ?R" by simp
    have len: "length ?rounds = ?R" by (rule generateBracket_shape(1)[OF n])
    have "?R - 1 - 0 = Suc (?R - 1 - 1)" using R2 by simp
    then have "(2::nat) ^ (?R - 1) = 2 * 2 ^ (?R - 1 - 1)" by simp
    with i' have j: "i div 2 < 2 ^ (?R - 1 - 1)" by simp
    have l1: "length (?rounds ! 1) = 2 ^ (?R - 1 - 1)" by (rule generateBracket_shape(2)[OF n R2])
    let ?prev = "unlinkedRounds players ! 0"
    have lp: "length ?prev = 2 ^ (?R - 1)"
      using unlinkedRounds_round_length[OF n R0] by simp
    have u: "unlinkedRounds players ! 1 = newRound 1 ?prev"
      using unlinkedRounds_Suc[OF n, of 0] R2 by simp
    have jn: "i div 2 < (length ?prev + 1) div 2" using i' lp by simp
    have i0: "i < 2 ^ (?R - 1 - 0)" using i' by simp
    have pb: "isBye (?prev ! i) = Some True" "winnerId (?prev ! i) = Val w"
      using generateBracket_fields(5,6)[OF n R0 i0] isb w(1) by simp_all
    have "m_players (?rounds ! 1 ! (i div 2)) = m_players (unlinkedRounds players ! 1 ! (i div 2))"
      by (rule generateBracket_fields(4)[OF n R2 j])
    also have "\<dots> = m_players (laterRoundMatch 1 ?prev (2 * (i div 2)))"
      unfolding u using jn by (simp add: newRound_nth)
    finally have mp1: "m_players (?rounds ! 1 ! (i div 2)) =
        [if isBye (?prev ! (2 * (i div 2))) = Some True then winnerId (?prev ! (2 * (i div 2)))
         else Null,
         if 2 * (i div 2) + 1 < length ?prev \<and> isBye (?prev ! (2 * (i div 2) + 1)) = Some True
         then winnerId (?prev ! (2 * (i div 2) + 1)) else Null]"
      by (simp only: laterRoundMatch_fields)
    have slot: "m_players (?rounds ! 1 ! (i div 2)) ! (i mod 2) = Val w"
    proof (cases "even i")
      case True
      then have "2 * (i div 2) = i" "i mod 2 = 0" by auto
      then show ?thesis unfolding mp1 using pb by simp
    next
      case False
      then have e: "2 * (i div 2) + 1 = i" "i mod 2 = 1" by (auto simp: odd_iff_mod_2_eq_one)
      have "i < length ?prev" using i' lp by simp
      then show ?thesis unfolding mp1 e using pb by simp
    qed
    from w len R2 l1 j slot show ?thesis by auto
  qed
  show ?thesis
    unfolding Let_def
    using mp u1 u2 bye' adv by simp
qed


text \<open>
  C4. In the bracket that \<open>generateBracket\<close> builds for \<open>n \<ge> 2\<close> players, every
  first-round match has two slots, each \<open>null\<close> or a player, and is marked \<open>isBye\<close>
  exactly when exactly one slot is \<open>null\<close>. A bye match has its one player as
  \<open>winnerId\<close>, a round 1 exists, and that player already stands in the match
  \<open>i div 2\<close> of round 1, in slot \<open>i mod 2\<close>.
\<close>

theorem firstRound_byes:
  assumes n: "2 \<le> length players" and i: "i < length (winners (generateBracket players) ! 0)"
  shows "(let rounds = winners (generateBracket players);
              m = rounds ! 0 ! i;
              p1 = m_players m ! 0;
              p2 = m_players m ! 1
          in length (m_players m) = 2 \<and> p1 \<noteq> Undefined \<and> p2 \<noteq> Undefined
             \<and> isBye m = Some ((p1 = Null) \<noteq> (p2 = Null))
             \<and> (isBye m = Some True \<longrightarrow>
                   (\<exists>w. winnerId m = Val w
                        \<and> (p1 = Val w \<and> p2 = Null \<or> p1 = Null \<and> p2 = Val w)
                        \<and> 1 < length rounds \<and> i div 2 < length (rounds ! 1)
                        \<and> m_players (rounds ! 1 ! (i div 2)) ! (i mod 2) = Val w)))"
  by (rule bye_is_advanced[OF n i])

theorem firstRound_byes_witness:
  "isBye (winners (generateBracket threePlayers) ! 0 ! 0) = Some True
   \<and> (\<exists>w. winnerId (winners (generateBracket threePlayers) ! 0 ! 0) = Val w
          \<and> m_players (winners (generateBracket threePlayers) ! 1 ! (0 div 2)) ! (0 mod 2) = Val w)"
proof -
  have h1: "2 \<le> length threePlayers" by (simp add: threePlayers_def)
  have h2: "0 < length (winners (generateBracket threePlayers) ! 0)" by code_simp
  have b: "isBye (winners (generateBracket threePlayers) ! 0 ! 0) = Some True" by code_simp
  from firstRound_byes[OF h1 h2, unfolded Let_def] b show ?thesis by blast
qed


subsection \<open>Independence of the input order\<close>

lemma filter_same_key:
  "distinct (map f xs) \<Longrightarrow> k \<in> set xs \<Longrightarrow> filter (\<lambda>x. f k = f x) xs = [k]"
proof (induction xs)
  case Nil
  then show ?case by simp
next
  case (Cons x xs)
  show ?case
  proof (cases "k = x")
    case True
    have "filter (\<lambda>y. f x = f y) xs = []"
      using Cons.prems(1) by (force simp: filter_empty_conv)
    with True show ?thesis by simp
  next
    case False
    with Cons.prems have k: "k \<in> set xs" by simp
    from Cons.prems(1) have "f x \<notin> f ` set xs" by simp
    with k have "f k \<noteq> f x" by (metis imageI)
    with Cons.IH k Cons.prems(1) show ?thesis by simp
  qed
qed

lemma sort_key_permutation:
  assumes "mset ys = mset xs" and "distinct (map f xs)"
  shows "sort_key f ys = sort_key f xs"
proof (rule properties_for_sort_key)
  show "mset (sort_key f xs) = mset ys" using assms(1) by simp
  show "sorted (map f (sort_key f xs))" by simp
  fix k assume "k \<in> set (sort_key f xs)"
  then have kx: "k \<in> set xs" by simp
  then have ky: "k \<in> set ys" using assms(1) by (metis mset_eq_setD)
  have "mset (map f ys) = mset (map f xs)" using assms(1) by simp
  then have dy: "distinct (map f ys)" using assms(2) by (metis mset_eq_imp_distinct_iff)
  have ds: "distinct (map f (sort_key f xs))" using assms(2) by (simp add: distinct_map)
  have "filter (\<lambda>x. f k = f x) (sort_key f xs) = [k]"
    using filter_same_key[OF ds] kx by simp
  moreover have "filter (\<lambda>x. f k = f x) ys = [k]" by (rule filter_same_key[OF dy ky])
  ultimately show "filter (\<lambda>x. f k = f x) (sort_key f xs) = filter (\<lambda>x. f k = f x) ys" by simp
qed

text \<open>
  C6. For players with pairwise distinct seeds, \<open>generateBracket\<close> sorts by seed
  before it places anybody, so a permutation of the input list yields the same bracket:
  in particular the same players in the same first-round slots.
\<close>

theorem generateBracket_permutation:
  assumes "distinct (map seed players)" and "mset players' = mset players"
  shows "generateBracket players' = generateBracket players
       \<and> map m_players (winners (generateBracket players') ! 0)
           = map m_players (winners (generateBracket players) ! 0)"
proof -
  have s: "sort_key seed players' = sort_key seed players"
    by (rule sort_key_permutation[OF assms(2,1)])
  have l: "length players' = length players" using assms(2) by (metis size_mset)
  have "generateBracket players' = generateBracket players"
    unfolding generateBracket_def Let_def s l by simp
  then show ?thesis by simp
qed

theorem generateBracket_permutation_witness:
  "generateBracket [examplePlayer ''a'' 1, examplePlayer ''b'' 2, examplePlayer ''c'' 3]
     = generateBracket threePlayers
   \<and> map m_players (winners (generateBracket
          [examplePlayer ''a'' 1, examplePlayer ''b'' 2, examplePlayer ''c'' 3]) ! 0)
       = map m_players (winners (generateBracket threePlayers) ! 0)"
proof -
  have h1: "distinct (map seed threePlayers)"
    by (simp add: threePlayers_def examplePlayer_def)
  have h2: "mset [examplePlayer ''a'' 1, examplePlayer ''b'' 2, examplePlayer ''c'' 3]
              = mset threePlayers"
    by (simp add: threePlayers_def)
  show ?thesis by (rule generateBracket_permutation[OF h1 h2])
qed


subsection \<open>Match ids are unique\<close>

lemma digit_char_code: "d < 10 \<Longrightarrow> (of_char (digit_char d) :: nat) = 48 + d"
proof -
  assume "d < 10"
  then consider "d = 0" | "d = 1" | "d = 2" | "d = 3" | "d = 4"
    | "d = 5" | "d = 6" | "d = 7" | "d = 8" | "d = 9" by atomize_elim arith
  then show ?thesis by cases (simp_all add: digit_char_def)
qed

lemma digit_char_inj:
  assumes "a < 10" and "b < 10" and "digit_char a = digit_char b"
  shows "a = b"
proof -
  have "(of_char (digit_char a) :: nat) = of_char (digit_char b)"
    using assms(3) by (rule arg_cong)
  then have "48 + a = 48 + b"
    unfolding digit_char_code[OF assms(1)] digit_char_code[OF assms(2)] .
  then show ?thesis by linarith
qed

lemma digit_char_not_W:
  assumes "d < 10"
  shows "digit_char d \<noteq> CHR ''W''"
proof
  assume "digit_char d = CHR ''W''"
  then have "(of_char (digit_char d) :: nat) = of_char (CHR ''W'')" by (rule arg_cong)
  then have "48 + d = (87::nat)" unfolding digit_char_code[OF assms] by simp
  with assms show False by linarith
qed

lemma digit_char_not_W': "d < 10 \<Longrightarrow> CHR ''W'' \<noteq> digit_char d"
  using digit_char_not_W[of d] by metis

lemma string_of_nat_not_W: "CHR ''W'' \<notin> set (string_of_nat n)"
proof (induction n rule: string_of_nat.induct)
  case (1 n)
  show ?case
  proof (cases "n < 10")
    case True
    then show ?thesis by (subst string_of_nat.simps) (simp add: digit_char_not_W')
  next
    case False
    then show ?thesis using 1
      by (subst string_of_nat.simps) (simp add: digit_char_not_W')
  qed
qed

lemma string_of_nat_nonempty: "string_of_nat n \<noteq> []"
  by (subst string_of_nat.simps) simp

lemma string_of_nat_inj: "string_of_nat m = string_of_nat n \<Longrightarrow> m = n"
proof (induction m arbitrary: n rule: string_of_nat.induct)
  case (1 m)
  show ?case
  proof (cases "m < 10")
    case True
    note m = this
    show ?thesis
    proof (cases "n < 10")
      case True
      with m 1(2) show ?thesis
        by (simp add: string_of_nat.simps[of m] string_of_nat.simps[of n] digit_char_inj)
    next
      case False
      with m 1(2) have "[digit_char m] = string_of_nat (n div 10) @ [digit_char (n mod 10)]"
        by (simp add: string_of_nat.simps[of m] string_of_nat.simps[of n])
      then have "string_of_nat (n div 10) = []" by simp
      then show ?thesis using string_of_nat_nonempty by simp
    qed
  next
    case False
    note m = this
    show ?thesis
    proof (cases "n < 10")
      case True
      with m 1(2) have "string_of_nat (m div 10) @ [digit_char (m mod 10)] = [digit_char n]"
        by (simp add: string_of_nat.simps[of m] string_of_nat.simps[of n])
      then have "string_of_nat (m div 10) = []" by simp
      then show ?thesis using string_of_nat_nonempty by simp
    next
      case False
      with m 1(2) have e: "string_of_nat (m div 10) = string_of_nat (n div 10)"
        "digit_char (m mod 10) = digit_char (n mod 10)"
        by (simp_all add: string_of_nat.simps[of m] string_of_nat.simps[of n])
      from 1(1)[OF m e(1)] have d: "m div 10 = n div 10" .
      from e(2) have "m mod 10 = n mod 10" by (intro digit_char_inj) simp_all
      with d show ?thesis by (metis div_mult_mod_eq)
    qed
  qed
qed

lemma split_at_W:
  assumes "a @ CHR ''W'' # b = c @ CHR ''W'' # d"
      and "CHR ''W'' \<notin> set a" and "CHR ''W'' \<notin> set c"
  shows "a = c \<and> b = d"
  using assms
proof (induction a arbitrary: c)
  case Nil
  then show ?case by (cases c) auto
next
  case (Cons x a)
  then show ?case by (cases c) auto
qed

lemma idOf_inj: "idOf r m = idOf r' m' \<Longrightarrow> r = r' \<and> m = m'"
proof -
  assume "idOf r m = idOf r' m'"
  then have "string_of_nat (r + 1) @ CHR ''W'' # string_of_nat (m + 1)
           = string_of_nat (r' + 1) @ CHR ''W'' # string_of_nat (m' + 1)"
    by (simp add: idOf_def)
  from split_at_W[OF this string_of_nat_not_W string_of_nat_not_W]
  have "string_of_nat (r + 1) = string_of_nat (r' + 1)"
       "string_of_nat (m + 1) = string_of_nat (m' + 1)" by simp_all
  then show ?thesis using string_of_nat_inj by force
qed



subsection \<open>Every match feeds one next match, but for the final\<close>

lemma unlinkedRounds_later:
  assumes n: "2 \<le> length players" and r: "Suc r < ceillog2 (length players)"
      and i: "i < length (unlinkedRounds players ! Suc r)"
  shows "winnerId (unlinkedRounds players ! Suc r ! i) = Undefined"
    and "length (m_players (unlinkedRounds players ! Suc r ! i)) = 2"
proof -
  have eq: "unlinkedRounds players ! Suc r = newRound (Suc r) (unlinkedRounds players ! r)"
    by (rule unlinkedRounds_Suc[OF n r])
  have j: "i < (length (unlinkedRounds players ! r) + 1) div 2"
    using i unfolding eq by (simp add: length_newRound)
  show "winnerId (unlinkedRounds players ! Suc r ! i) = Undefined"
    unfolding eq newRound_nth[OF j] by (simp only: laterRoundMatch_fields)
  show "length (m_players (unlinkedRounds players ! Suc r ! i)) = 2"
    unfolding eq newRound_nth[OF j] by (simp only: laterRoundMatch_fields) simp
qed

lemma validPos_generateBracket:
  assumes n: "2 \<le> length players"
  shows "validPos (winners (generateBracket players)) (r, m)
           \<longleftrightarrow> r < ceillog2 (length players) \<and> m < 2 ^ (ceillog2 (length players) - 1 - r)"
  using generateBracket_shape(1,2)[OF n] by (auto simp: validPos_def)

lemma generateBracket_winner_form:
  assumes n: "2 \<le> length players" and r: "r < ceillog2 (length players)"
      and m: "m < 2 ^ (ceillog2 (length players) - 1 - r)"
  shows "length (m_players (winners (generateBracket players) ! r ! m)) = 2"
    and "winnerId (winners (generateBracket players) ! r ! m) = Undefined
         \<or> (r = 0 \<and> isBye (winners (generateBracket players) ! r ! m) = Some True
             \<and> (\<exists>w. winnerId (winners (generateBracket players) ! r ! m) = Val w
                  \<and> (m_players (winners (generateBracket players) ! r ! m) = [Val w, Null]
                     \<or> m_players (winners (generateBracket players) ! r ! m) = [Null, Val w])))"
proof -
  let ?mt = "winners (generateBracket players) ! r ! m"
  have both: "length (m_players ?mt) = 2
      \<and> (winnerId ?mt = Undefined
         \<or> (r = 0 \<and> isBye ?mt = Some True
             \<and> (\<exists>w. winnerId ?mt = Val w
                  \<and> (m_players ?mt = [Val w, Null] \<or> m_players ?mt = [Null, Val w]))))"
  proof (cases r)
    case 0
    have i: "m < length (winners (generateBracket players) ! 0)"
      using m generateBracket_shape(2)[OF n r] 0 by simp
    from bye_is_advanced[OF n i, unfolded Let_def]
    have len: "length (m_players (winners (generateBracket players) ! 0 ! m)) = 2"
      and bye: "isBye (winners (generateBracket players) ! 0 ! m) = Some True \<longrightarrow>
                (\<exists>w. winnerId (winners (generateBracket players) ! 0 ! m) = Val w
                  \<and> (m_players (winners (generateBracket players) ! 0 ! m) ! 0 = Val w
                       \<and> m_players (winners (generateBracket players) ! 0 ! m) ! 1 = Null
                     \<or> m_players (winners (generateBracket players) ! 0 ! m) ! 0 = Null
                       \<and> m_players (winners (generateBracket players) ! 0 ! m) ! 1 = Val w))"
      by blast+
    from len obtain p1 p2 where pp: "m_players (winners (generateBracket players) ! 0 ! m) = [p1, p2]"
      by (cases "m_players (winners (generateBracket players) ! 0 ! m)"; 
          cases "tl (m_players (winners (generateBracket players) ! 0 ! m))") auto
    have m0: "m < 2 ^ (ceillog2 (length players) - 1)" using m 0 by simp
    note g = generateBracket_first_round[OF n m0]
    let ?p1 = "js_nth (finalPlayerOrderOf players) (int m * 2)"
    let ?p2 = "js_nth (finalPlayerOrderOf players) (int m * 2 + 1)"
    have nb: "winnerId (winners (generateBracket players) ! 0 ! m) = Undefined"
      if "isBye (winners (generateBracket players) ! 0 ! m) \<noteq> Some True"
    proof -
      from that have "\<not> ((?p1 \<noteq> Null \<and> ?p2 = Null) \<or> (?p1 = Null \<and> ?p2 \<noteq> Null))"
        unfolding g(2) firstRoundMatch_fields(8) by simp
      then show ?thesis unfolding g(3) firstRoundMatch_fields(9) by (simp only: if_False)
    qed
    show ?thesis
    proof (cases "isBye (winners (generateBracket players) ! 0 ! m) = Some True")
      case True
      with bye pp len show ?thesis unfolding 0 by auto
    next
      case False
      from nb[OF this] len show ?thesis unfolding 0 by simp
    qed
  next
    case (Suc r')
    have r': "Suc r' < ceillog2 (length players)" using r Suc by simp
    have iu: "m < length (unlinkedRounds players ! Suc r')"
      using m unlinkedRounds_round_length[OF n r] Suc by simp
    note f = generateBracket_fields(4,6)[OF n r m]
    show ?thesis
      using f unlinkedRounds_later[OF n r' iu] unfolding Suc by simp
  qed
  from both show "length (m_players ?mt) = 2" by blast
  from both show "winnerId ?mt = Undefined
         \<or> (r = 0 \<and> isBye ?mt = Some True
             \<and> (\<exists>w. winnerId ?mt = Val w
                  \<and> (m_players ?mt = [Val w, Null] \<or> m_players ?mt = [Null, Val w])))"
    by blast
qed


text \<open>
  C5 (as amended). In the bracket that \<open>generateBracket\<close> builds for \<open>n \<ge> 2\<close>
  players, a match has at most one winner: its \<open>winnerId\<close> is unset or is the one
  player of the match. A match \<open>m\<close> of a round \<open>r\<close> before the last has exactly one
  next match: the match \<open>m div 2\<close> of round \<open>r + 1\<close> exists and is the only match of
  the bracket whose id is its \<open>nextMatchId\<close>; the slot \<open>m mod 2\<close> of that match
  exists, and a winner that \<open>generateBracket\<close> sets stands in that slot. The match of
  the last round has no \<open>nextMatchId\<close> and no winner.
\<close>

theorem generateBracket_next_match:
  assumes n: "2 \<le> length players"
      and pos: "validPos (winners (generateBracket players)) (r, m)"
  shows "(let rounds = winners (generateBracket players);
              mt = rounds ! r ! m
          in (winnerId mt = Undefined
                \<or> (\<exists>w. winnerId mt = Val w
                       \<and> (m_players mt = [Val w, Null] \<or> m_players mt = [Null, Val w])))
           \<and> (r + 1 < length rounds \<longrightarrow>
                 validPos rounds (r + 1, m div 2)
                 \<and> (\<forall>pos'. validPos rounds pos' \<longrightarrow>
                       (Val (m_id (matchAt pos' rounds)) = nextMatchId mt
                          \<longleftrightarrow> pos' = (r + 1, m div 2)))
                 \<and> m mod 2 < length (m_players (rounds ! (r + 1) ! (m div 2)))
                 \<and> (\<forall>w. winnerId mt = Val w \<longrightarrow>
                       m_players (rounds ! (r + 1) ! (m div 2)) ! (m mod 2) = Val w))
           \<and> (r + 1 = length rounds \<longrightarrow> nextMatchId mt = Undefined \<and> winnerId mt = Undefined))"
proof -
  let ?R = "ceillog2 (length players)"
  let ?rounds = "winners (generateBracket players)"
  let ?mt = "?rounds ! r ! m"
  have len: "length ?rounds = ?R" by (rule generateBracket_shape(1)[OF n])
  from pos have r: "r < ?R" and m: "m < 2 ^ (?R - 1 - r)"
    unfolding validPos_generateBracket[OF n] by simp_all
  note wf = generateBracket_winner_form[OF n r m]
  have i0: "m < length (?rounds ! 0)" if "r = 0"
    using m that generateBracket_shape(2)[OF n r] by simp
  have bye_adv: "1 < ?R \<and> m_players (?rounds ! 1 ! (m div 2)) ! (m mod 2) = Val w"
    if w: "winnerId ?mt = Val w" for w
  proof -
    from wf(2) w have r0: "r = 0" and b: "isBye ?mt = Some True" by auto
    from bye_is_advanced[OF n i0[OF r0], unfolded Let_def] b w len show ?thesis
      unfolding r0 by auto
  qed
  have A: "winnerId ?mt = Undefined
           \<or> (\<exists>w. winnerId ?mt = Val w
                  \<and> (m_players ?mt = [Val w, Null] \<or> m_players ?mt = [Null, Val w]))"
    using wf(2) by blast
  have B: "validPos ?rounds (r + 1, m div 2)
           \<and> (\<forall>pos'. validPos ?rounds pos' \<longrightarrow>
                 (Val (m_id (matchAt pos' ?rounds)) = nextMatchId ?mt \<longleftrightarrow> pos' = (r + 1, m div 2)))
           \<and> m mod 2 < length (m_players (?rounds ! (r + 1) ! (m div 2)))
           \<and> (\<forall>w. winnerId ?mt = Val w \<longrightarrow>
                 m_players (?rounds ! (r + 1) ! (m div 2)) ! (m mod 2) = Val w)"
    if r1: "r + 1 < length ?rounds"
  proof -
    from r1 len have r1': "r + 1 < ?R" by simp
    have "?R - 1 - r = Suc (?R - 1 - (r + 1))" using r1' by simp
    then have "(2::nat) ^ (?R - 1 - r) = 2 * 2 ^ (?R - 1 - (r + 1))" by simp
    with m have d: "m div 2 < 2 ^ (?R - 1 - (r + 1))" by simp
    have v: "validPos ?rounds (r + 1, m div 2)"
      unfolding validPos_generateBracket[OF n] using r1' d by simp
    have nx: "nextMatchId ?mt = Val (idOf (r + 1) (m div 2))"
      using generateBracket_fields(8)[OF n r m] r1' by simp
    have uniq: "Val (m_id (matchAt pos' ?rounds)) = nextMatchId ?mt \<longleftrightarrow> pos' = (r + 1, m div 2)"
      if vp: "validPos ?rounds pos'" for pos'
    proof -
      obtain r' m' where p: "pos' = (r', m')" by (cases pos')
      from vp have "r' < ?R" "m' < 2 ^ (?R - 1 - r')"
        unfolding p validPos_generateBracket[OF n] by simp_all
      from generateBracket_fields(1)[OF n this]
      have "m_id (matchAt pos' ?rounds) = idOf r' m'" by (simp add: matchAt_def p)
      then show ?thesis unfolding nx p using idOf_inj[of r' m' "r + 1" "m div 2"] by auto
    qed
    have sl: "m mod 2 < length (m_players (?rounds ! (r + 1) ! (m div 2)))"
      using generateBracket_winner_form(1)[OF n r1' d] by simp
    have adv: "m_players (?rounds ! (r + 1) ! (m div 2)) ! (m mod 2) = Val w"
      if w: "winnerId ?mt = Val w" for w
    proof -
      from wf(2) w have "r = 0" by auto
      with bye_adv[OF w] show ?thesis by simp
    qed
    from v uniq sl adv show ?thesis by blast
  qed
  have C: "nextMatchId ?mt = Undefined \<and> winnerId ?mt = Undefined"
    if rl: "r + 1 = length ?rounds"
  proof -
    from rl len have nr: "\<not> r + 1 < ?R" by simp
    have nx: "nextMatchId ?mt = Undefined"
      using generateBracket_fields(8)[OF n r m] nr by simp
    have "winnerId ?mt = Undefined"
    proof (rule ccontr)
      assume "winnerId ?mt \<noteq> Undefined"
      with wf(2) obtain w where w: "winnerId ?mt = Val w" and r0: "r = 0" by auto
      from bye_adv[OF w] r0 nr show False by simp
    qed
    with nx show ?thesis by simp
  qed
  show ?thesis unfolding Let_def using A B C by blast
qed

theorem generateBracket_next_match_witness:
  "validPos (winners (generateBracket threePlayers)) (1, 0)
   \<and> Val (m_id (matchAt (1, 0) (winners (generateBracket threePlayers))))
       = nextMatchId (winners (generateBracket threePlayers) ! 0 ! 0)
   \<and> Val (m_id (matchAt (0, 1) (winners (generateBracket threePlayers))))
       \<noteq> nextMatchId (winners (generateBracket threePlayers) ! 0 ! 0)
   \<and> m_players (winners (generateBracket threePlayers) ! 1 ! 0) ! 0 = Val ''a''
   \<and> nextMatchId (winners (generateBracket threePlayers) ! 1 ! 0) = Undefined"
proof -
  have h: "2 \<le> length threePlayers" by (simp add: threePlayers_def)
  have l: "length (winners (generateBracket threePlayers)) = 2" by code_simp
  have v0: "validPos (winners (generateBracket threePlayers)) (0, 0)"
    unfolding validPos_def by code_simp
  have v01: "validPos (winners (generateBracket threePlayers)) (0, 1)"
    unfolding validPos_def by code_simp
  have v1: "validPos (winners (generateBracket threePlayers)) (1, 0)"
    unfolding validPos_def by code_simp
  have w: "winnerId (winners (generateBracket threePlayers) ! 0 ! 0) = Val ''a''" by code_simp
  note a = generateBracket_next_match[OF h v0, unfolded Let_def l]
  note b = generateBracket_next_match[OF h v1, unfolded Let_def l]
  from a have a2: "\<forall>pos'. validPos (winners (generateBracket threePlayers)) pos' \<longrightarrow>
         (Val (m_id (matchAt pos' (winners (generateBracket threePlayers))))
            = nextMatchId (winners (generateBracket threePlayers) ! 0 ! 0)
          \<longleftrightarrow> pos' = (0 + 1, 0 div 2))"
    by simp
  from a w have a3:
    "m_players (winners (generateBracket threePlayers) ! (0 + 1) ! (0 div 2)) ! (0 mod 2)
       = Val ''a''"
    by simp
  from a2 v1 have c1: "Val (m_id (matchAt (1, 0) (winners (generateBracket threePlayers))))
       = nextMatchId (winners (generateBracket threePlayers) ! 0 ! 0)" by simp
  from a2 v01 have c2: "Val (m_id (matchAt (0, 1) (winners (generateBracket threePlayers))))
       \<noteq> nextMatchId (winners (generateBracket threePlayers) ! 0 ! 0)" by simp
  from b have b1: "nextMatchId (winners (generateBracket threePlayers) ! 1 ! 0) = Undefined"
    by simp
  from v1 c1 c2 a3 b1 show ?thesis by simp
qed

text \<open>
  C5 as stated gives every match a next match. The final match has none: for two
  players the bracket is one round of one match, whose \<open>nextMatchId\<close> is
  \<open>undefined\<close>, and no match of the bracket is found for it.
\<close>

theorem final_match_has_no_next_counterexample:
  "length (winners (generateBracket twoPlayers)) = 1
   \<and> length (winners (generateBracket twoPlayers) ! 0) = 1
   \<and> nextMatchId (winners (generateBracket twoPlayers) ! 0 ! 0) = Undefined
   \<and> locateMatch (\<lambda>m. Val (m_id m) = nextMatchId (winners (generateBracket twoPlayers) ! 0 ! 0))
        (winners (generateBracket twoPlayers)) = None"
  by code_simp


end
